theory Spec2Isabelle
  imports Main "HOL-Library.Word"
begin

section \<open>Data model\<close>

text \<open>
  The plugin interface of \<^verbatim>\<open>operator_interface.h\<close> and the two shipped plugins.
  An \<^verbatim>\<open>IScoreOperator*\<close> is an optional instance: \<open>None\<close> is the null pointer.
  An instance is known by its address and its dynamic class; \<open>name\<close> is the virtual
  method \<^verbatim>\<open>name()\<close> of \<^verbatim>\<open>score_op_v1.cpp\<close> and \<^verbatim>\<open>score_op_v2.cpp\<close>; a third-party
  plugin may report any other string.
\<close>

datatype op_class = ScoreOperatorV1 | ScoreOperatorV2 | OtherOperator string

fun name :: "op_class \<Rightarrow> string" where
  "name ScoreOperatorV1 = ''ScoreOperatorV1''"
| "name ScoreOperatorV2 = ''ScoreOperatorV2''"
| "name (OtherOperator s) = s"

record IScoreOperator =
  inst_addr :: nat
  inst_class :: op_class

text \<open>
  The two entry points a module may export. \<^verbatim>\<open>create_operator()\<close> either returns a
  new instance of some class or the null pointer.
\<close>

datatype CreateFunc = CreateFunc "op_class option"
datatype DestroyFunc = DestroyFunc

record module =
  module_id :: nat
  create_operator :: "CreateFunc option"
  destroy_operator :: "DestroyFunc option"

text \<open>
  The dynamic linker as the program sees it: \<^verbatim>\<open>dlopen(path, RTLD_NOW)\<close> yields a
  module handle or the null pointer.
\<close>

type_synonym dl_world = "string \<Rightarrow> module option"

text \<open>\<^verbatim>\<open>struct OperatorHolder\<close>: three nullable pointers, all null after construction.\<close>

record OperatorHolder =
  handle :: "module option"
  op :: "IScoreOperator option"
  destroy_func :: "DestroyFunc option"

definition new_holder :: OperatorHolder where
  "new_holder = \<lparr>handle = None, op = None, destroy_func = None\<rparr>"

text \<open>\<^verbatim>\<open>struct Statistics\<close>: four \<^verbatim>\<open>std::atomic<uint64_t>\<close> counters, all zero at start.\<close>

record Statistics =
  total_requests :: "64 word"
  v1_requests :: "64 word"
  v2_requests :: "64 word"
  hot_update_count :: "64 word"

definition new_stats :: Statistics where
  "new_stats = \<lparr>total_requests = 0, v1_requests = 0, v2_requests = 0, hot_update_count = 0\<rparr>"

text \<open>
  \<^verbatim>\<open>Statistics::record_request\<close> is two atomic increments; the two halves are kept
  apart because another thread may run between them.
\<close>

definition count_total :: "Statistics \<Rightarrow> Statistics" where
  "count_total st = st\<lparr>total_requests := total_requests st + 1\<rparr>"

definition count_variant :: "string \<Rightarrow> Statistics \<Rightarrow> Statistics" where
  "count_variant op_name st =
     (if op_name = ''ScoreOperatorV1'' then st\<lparr>v1_requests := v1_requests st + 1\<rparr>
      else if op_name = ''ScoreOperatorV2'' then st\<lparr>v2_requests := v2_requests st + 1\<rparr>
      else st)"

definition record_request :: "string \<Rightarrow> Statistics \<Rightarrow> Statistics" where
  "record_request op_name st = count_variant op_name (count_total st)"

text \<open>A sequence of calls, one per recorded operator name, in order.\<close>

fun record_requests :: "string list \<Rightarrow> Statistics \<Rightarrow> Statistics" where
  "record_requests [] st = st"
| "record_requests (n # ns) st = record_requests ns (record_request n st)"

definition other_requests :: "string list \<Rightarrow> nat" where
  "other_requests ns =
     length (filter (\<lambda>n. n \<noteq> ''ScoreOperatorV1'' \<and> n \<noteq> ''ScoreOperatorV2'') ns)"

section \<open>Shared state, shared pointers and the trace of effects\<close>

text \<open>
  An \<^verbatim>\<open>OperatorHolder\<close> lives in a \<^verbatim>\<open>std::shared_ptr\<close> control block, named here
  by a number \<open>hid\<close> that is handed out once, so that two holders are never confused
  even where the allocator would reuse an address. The effects on the outside world are
  written to a trace, newest event first.
\<close>

type_synonym hid = nat

datatype tid = Main | Controller | Worker nat

datatype event =
    EvDlopen string
  | EvDlclose hid module
  | EvCreate IScoreOperator
  | EvDestroy hid IScoreOperator
  | EvStore hid
  | EvLoad tid "hid option"
  | EvCompute nat nat hid
  | EvNullOperator nat
  | EvStderr

record shared =
  g_operator :: "hid option"
  g_stats :: Statistics
  holders :: "hid \<Rightarrow> OperatorHolder"
  use_count :: "hid \<Rightarrow> nat"
  next_holder :: hid
  next_inst :: nat
  trace :: "event list"

definition emit :: "event list \<Rightarrow> shared \<Rightarrow> shared" where
  "emit evs g = g\<lparr>trace := rev evs @ trace g\<rparr>"

text \<open>The events of a run in the order they happened.\<close>

definition history :: "shared \<Rightarrow> event list" where
  "history g = rev (trace g)"

text \<open>
  \<^verbatim>\<open>~OperatorHolder\<close>: the two statements of the destructor, in the order of the source.
\<close>

definition dtor_actions :: "hid \<Rightarrow> OperatorHolder \<Rightarrow> event list" where
  "dtor_actions h H =
     (case (op H, destroy_func H) of (Some i, Some d) \<Rightarrow> [EvDestroy h i] | _ \<Rightarrow> [])
     @ (case handle H of Some m \<Rightarrow> [EvDlclose h m] | None \<Rightarrow> [])"

text \<open>
  \<^verbatim>\<open>std::make_shared<OperatorHolder>()\<close>: a fresh control block owned by one pointer.
\<close>

definition make_shared :: "shared \<Rightarrow> hid \<times> shared" where
  "make_shared g =
     (let h = next_holder g
      in (h, g\<lparr>holders := (holders g)(h := new_holder),
                use_count := (use_count g)(h := 1),
                next_holder := Suc h\<rparr>))"

text \<open>Copying a shared pointer adds one owner; the null pointer owns nothing.\<close>

definition sp_copy :: "hid option \<Rightarrow> shared \<Rightarrow> shared" where
  "sp_copy p g =
     (case p of None \<Rightarrow> g
      | Some h \<Rightarrow> g\<lparr>use_count := (use_count g)(h := Suc (use_count g h))\<rparr>)"

text \<open>
  Destroying a shared pointer removes one owner; the owner that brings the count to zero
  runs \<^verbatim>\<open>~OperatorHolder\<close>.
\<close>

definition sp_release :: "hid option \<Rightarrow> shared \<Rightarrow> shared" where
  "sp_release p g =
     (case p of None \<Rightarrow> g
      | Some h \<Rightarrow>
          (let g' = g\<lparr>use_count := (use_count g)(h := use_count g h - 1)\<rparr>
           in if use_count g h - 1 = 0 then emit (dtor_actions h (holders g h)) g' else g'))"

text \<open>
  \<^verbatim>\<open>std::atomic_load(&g_operator)\<close> and \<^verbatim>\<open>std::atomic_store(&g_operator, p)\<close>, each one
  indivisible step (their default memory order is sequentially consistent). The load
  hands out a new owner of the current bundle. The store takes its argument by value
  (one more owner), swaps it into the slot and destroys the pointer that was there.
\<close>

definition atomic_load :: "tid \<Rightarrow> shared \<Rightarrow> hid option \<times> shared" where
  "atomic_load t g = (g_operator g, emit [EvLoad t (g_operator g)] (sp_copy (g_operator g) g))"

definition atomic_store :: "hid \<Rightarrow> shared \<Rightarrow> shared" where
  "atomic_store h g =
     (let old = g_operator g;
          g1 = sp_copy (Some h) g;
          g2 = emit [EvStore h] (g1\<lparr>g_operator := Some h\<rparr>)
      in sp_release old g2)"

section \<open>The module loader\<close>

text \<open>
  \<^verbatim>\<open>load_operator\<close>. The local \<^verbatim>\<open>holder\<close> is the only owner of the new control block;
  on both early returns it goes out of scope, which runs the destructor, and on the
  second one the source has already called \<^verbatim>\<open>dlclose(holder->handle)\<close> itself without
  clearing the field.
\<close>

definition set_handle :: "hid \<Rightarrow> module option \<Rightarrow> shared \<Rightarrow> shared" where
  "set_handle h m g = g\<lparr>holders := (holders g)(h := (holders g h)\<lparr>handle := m\<rparr>)\<rparr>"

definition call_create :: "CreateFunc \<Rightarrow> shared \<Rightarrow> IScoreOperator option \<times> shared" where
  "call_create c g =
     (case c of
        CreateFunc None \<Rightarrow> (None, g)
      | CreateFunc (Some cls) \<Rightarrow>
          (let i = \<lparr>inst_addr = next_inst g, inst_class = cls\<rparr>
           in (Some i, emit [EvCreate i] (g\<lparr>next_inst := Suc (next_inst g)\<rparr>))))"

definition load_operator :: "dl_world \<Rightarrow> string \<Rightarrow> shared \<Rightarrow> hid option \<times> shared" where
  "load_operator dl so_file g =
     (let (h, g1) = make_shared g;
          g2 = emit [EvDlopen so_file] (set_handle h (dl so_file) g1)
      in case dl so_file of
           None \<Rightarrow> (None, sp_release (Some h) (emit [EvStderr] g2))
         | Some m \<Rightarrow>
             (case (create_operator m, destroy_operator m) of
                (Some create, Some destroy) \<Rightarrow>
                  (let (i, g3) = call_create create g2
                   in (Some h,
                       g3\<lparr>holders := (holders g3)
                            (h := (holders g3 h)\<lparr>op := i, destroy_func := Some destroy\<rparr>)\<rparr>))
              | _ \<Rightarrow>
                  (None, sp_release (Some h) (emit [EvStderr, EvDlclose h m] g2))))"

definition empty_shared :: shared where
  "empty_shared = \<lparr>g_operator = None, g_stats = new_stats, holders = (\<lambda>_. new_holder),
      use_count = (\<lambda>_. 0), next_holder = 0, next_inst = 0, trace = []\<rparr>"

section \<open>Hot update\<close>

text \<open>
  \<^verbatim>\<open>hot_update\<close>, one constructor per point of the function where another thread may
  run before the next statement; the constructor carries the locals \<^verbatim>\<open>new_holder\<close>
  and \<^verbatim>\<open>old_holder\<close> that are alive there. \<open>HU_Segfault\<close> is the null dereference of
  \<^verbatim>\<open>new_holder->op->name()\<close>.
\<close>

datatype hu_pc =
    HU_Load string
  | HU_AtomicLoad hid
  | HU_AtomicStore hid "hid option"
  | HU_Count hid "hid option"
  | HU_Print hid "hid option"
  | HU_Sleep hid "hid option"
  | HU_Return bool
  | HU_Segfault

definition count_hot_update :: "Statistics \<Rightarrow> Statistics" where
  "count_hot_update st = st\<lparr>hot_update_count := hot_update_count st + 1\<rparr>"

fun hu_step :: "dl_world \<Rightarrow> tid \<Rightarrow> hu_pc \<Rightarrow> shared \<Rightarrow> hu_pc \<times> shared" where
  "hu_step dl t (HU_Load so_file) g =
     (case load_operator dl so_file g of
        (None, g1) \<Rightarrow> (HU_Return False, emit [EvStderr] g1)
      | (Some h, g1) \<Rightarrow> (HU_AtomicLoad h, g1))"
| "hu_step dl t (HU_AtomicLoad new) g =
     (let (old, g1) = atomic_load t g in (HU_AtomicStore new old, g1))"
| "hu_step dl t (HU_AtomicStore new old) g = (HU_Count new old, atomic_store new g)"
| "hu_step dl t (HU_Count new old) g =
     (HU_Print new old, g\<lparr>g_stats := count_hot_update (g_stats g)\<rparr>)"
| "hu_step dl t (HU_Print new old) g =
     (case op (holders g new) of
        None \<Rightarrow> (HU_Segfault, g)
      | Some i \<Rightarrow> (HU_Sleep new old, g))"
| "hu_step dl t (HU_Sleep new old) g =
     (HU_Return True, sp_release (Some new) (sp_release old g))"
| "hu_step dl t (HU_Return b) g = (HU_Return b, g)"
| "hu_step dl t HU_Segfault g = (HU_Segfault, g)"

text \<open>
  A call of \<^verbatim>\<open>hot_update\<close> that no other thread interleaves with runs its six statements
  in a row; a call that has returned or crashed stays where it is.
\<close>

fun hu_run :: "nat \<Rightarrow> dl_world \<Rightarrow> tid \<Rightarrow> hu_pc \<times> shared \<Rightarrow> hu_pc \<times> shared" where
  "hu_run 0 dl t x = x"
| "hu_run (Suc n) dl t x = hu_run n dl t (hu_step dl t (fst x) (snd x))"

definition hot_update :: "dl_world \<Rightarrow> tid \<Rightarrow> string \<Rightarrow> shared \<Rightarrow> hu_pc \<times> shared" where
  "hot_update dl t so_file g = hu_run 6 dl t (HU_Load so_file, g)"

section \<open>Threads\<close>

text \<open>
  \<^verbatim>\<open>business_thread_func\<close>: the loop counter \<^verbatim>\<open>i\<close> and the local \<^verbatim>\<open>op_ptr\<close>. The body
  of one round is cut at the atomic operations on shared state: the snapshot, the null
  check with the call of \<^verbatim>\<open>compute_score\<close>, the call of \<^verbatim>\<open>name()\<close> with the first
  increment of \<^verbatim>\<open>record_request\<close>, its second increment, and the end of the body where
  \<^verbatim>\<open>op_ptr\<close> goes out of scope. The feature record and the score are doubles that only
  reach the console; they are left out. \<open>W_Segfault\<close> is a call through a null instance.
\<close>

definition total_rounds :: nat where
  "total_rounds = 20"

datatype worker_pc =
    W_Round nat
  | W_Check nat "hid option"
  | W_Record nat hid
  | W_Variant nat hid string
  | W_Sleep nat hid
  | W_Done
  | W_Segfault

fun worker_step :: "nat \<Rightarrow> worker_pc \<Rightarrow> shared \<Rightarrow> worker_pc \<times> shared" where
  "worker_step k (W_Round i) g =
     (if i < total_rounds
      then (let (p, g1) = atomic_load (Worker k) g in (W_Check i p, g1))
      else (W_Done, g))"
| "worker_step k (W_Check i p) g =
     (case p of
        None \<Rightarrow> (W_Round (Suc i), emit [EvNullOperator k] g)
      | Some h \<Rightarrow>
          (case op (holders g h) of
             None \<Rightarrow> (W_Round (Suc i), sp_release (Some h) (emit [EvNullOperator k] g))
           | Some inst \<Rightarrow> (W_Record i h, emit [EvCompute k i h] g)))"
| "worker_step k (W_Record i h) g =
     (case op (holders g h) of
        None \<Rightarrow> (W_Segfault, g)
      | Some inst \<Rightarrow>
          (W_Variant i h (name (inst_class inst)),
           g\<lparr>g_stats := count_total (g_stats g)\<rparr>))"
| "worker_step k (W_Variant i h op_name) g =
     (W_Sleep i h, g\<lparr>g_stats := count_variant op_name (g_stats g)\<rparr>)"
| "worker_step k (W_Sleep i h) g = (W_Round (Suc i), sp_release (Some h) g)"
| "worker_step k W_Done g = (W_Done, g)"
| "worker_step k W_Segfault g = (W_Segfault, g)"

text \<open>
  \<^verbatim>\<open>hot_swap_controller\<close>: the paths still to be published and the call of
  \<^verbatim>\<open>hot_update\<close> in progress. \<^verbatim>\<open>main\<close>: its own first call of \<^verbatim>\<open>hot_update\<close>, then
  the threads run while it waits in \<^verbatim>\<open>join\<close>, then it returns.
\<close>

datatype ctl_pc =
    C_Idle "string list"
  | C_Update hu_pc "string list"
  | C_Done

datatype main_pc =
    M_Init hu_pc
  | M_Join
  | M_Exit

datatype status = Running | Aborted | Crashed | Exited

record sys =
  sh :: shared
  main :: main_pc
  workers :: "worker_pc list"
  ctl :: ctl_pc
  status :: status

text \<open>
  One step of a thread that is inside \<^verbatim>\<open>assert(hot_update(...))\<close>, in a build where
  \<^verbatim>\<open>assert\<close> evaluates its argument. A failed assertion aborts the process and a null
  dereference crashes it; the crashing thread stays at the statement that failed.
\<close>

definition assert_hot_update :: "dl_world \<Rightarrow> tid \<Rightarrow> hu_pc \<Rightarrow> sys \<Rightarrow> hu_pc \<times> sys" where
  "assert_hot_update dl t pc s =
     (case hu_step dl t pc (sh s) of
        (HU_Segfault, g) \<Rightarrow> (pc, s\<lparr>status := Crashed\<rparr>)
      | (HU_Return False, g) \<Rightarrow> (HU_Return False, s\<lparr>sh := g, status := Aborted\<rparr>)
      | (pc', g) \<Rightarrow> (pc', s\<lparr>sh := g\<rparr>))"

definition ctl_step :: "dl_world \<Rightarrow> sys \<Rightarrow> sys" where
  "ctl_step dl s =
     (case ctl s of
        C_Idle [] \<Rightarrow> s\<lparr>ctl := C_Done\<rparr>
      | C_Idle (f # fs) \<Rightarrow> s\<lparr>ctl := C_Update (HU_Load f) fs\<rparr>
      | C_Update pc fs \<Rightarrow>
          (case assert_hot_update dl Controller pc s of
             (HU_Return True, s') \<Rightarrow> s'\<lparr>ctl := C_Idle fs\<rparr>
           | (pc', s') \<Rightarrow> s'\<lparr>ctl := C_Update pc' fs\<rparr>)
      | C_Done \<Rightarrow> s)"

definition worker_sys_step :: "nat \<Rightarrow> sys \<Rightarrow> sys" where
  "worker_sys_step k s =
     (if k < length (workers s)
      then (case worker_step k (workers s ! k) (sh s) of
              (W_Segfault, g) \<Rightarrow> s\<lparr>status := Crashed\<rparr>
            | (pc', g) \<Rightarrow> s\<lparr>sh := g, workers := (workers s)[k := pc']\<rparr>)
      else s)"

text \<open>
  When every thread has been joined \<^verbatim>\<open>main\<close> returns, and the global \<^verbatim>\<open>g_operator\<close>
  is destroyed with the other statics.
\<close>

definition all_done :: "sys \<Rightarrow> bool" where
  "all_done s = (list_all (\<lambda>pc. pc = W_Done) (workers s) \<and> ctl s = C_Done)"

definition main_step :: "dl_world \<Rightarrow> sys \<Rightarrow> sys" where
  "main_step dl s =
     (case main s of
        M_Init pc \<Rightarrow>
          (case assert_hot_update dl Main pc s of
             (HU_Return True, s') \<Rightarrow> s'\<lparr>main := M_Join\<rparr>
           | (pc', s') \<Rightarrow> s'\<lparr>main := M_Init pc'\<rparr>)
      | M_Join \<Rightarrow>
          (if all_done s
           then s\<lparr>sh := sp_release (g_operator (sh s)) ((sh s)\<lparr>g_operator := None\<rparr>),
                  main := M_Exit, status := Exited\<rparr>
           else s)
      | M_Exit \<Rightarrow> s)"

text \<open>
  The worker and controller threads exist once \<^verbatim>\<open>main\<close> has started them, that is while
  it is joining; nothing moves after the process has ended. The thread that prints the
  statistics only reads the counters and is left out, and so are the sleeps: any thread
  may take the next step.
\<close>

definition step :: "dl_world \<Rightarrow> tid \<Rightarrow> sys \<Rightarrow> sys" where
  "step dl t s =
     (if status s \<noteq> Running then s
      else case t of
             Main \<Rightarrow> main_step dl s
           | Controller \<Rightarrow> (if main s = M_Join then ctl_step dl s else s)
           | Worker k \<Rightarrow> (if main s = M_Join then worker_sys_step k s else s))"

text \<open>An interleaving is the list of the threads that take the next step, in order.\<close>

fun run :: "dl_world \<Rightarrow> tid list \<Rightarrow> sys \<Rightarrow> sys" where
  "run dl [] s = s"
| "run dl (t # ts) s = run dl ts (step dl t s)"

text \<open>
  The process at the start of \<^verbatim>\<open>main\<close>: nothing loaded, \<open>n\<close> workers and a controller
  with its script waiting to be started.
\<close>

definition start :: "string \<Rightarrow> nat \<Rightarrow> string list \<Rightarrow> sys" where
  "start first n script =
     \<lparr>sh = empty_shared, main = M_Init (HU_Load first),
      workers = replicate n (W_Round 0), ctl = C_Idle script, status = Running\<rparr>"

definition THREAD_NUM :: nat where
  "THREAD_NUM = 4"

definition main_start :: sys where
  "main_start =
     start ''./score_op_v1.so'' THREAD_NUM
       [''./score_op_v2.so'', ''./score_op_v1.so'', ''./score_op_v2.so'']"

section \<open>A world to run the program in\<close>

text \<open>
  The two shipped plugins, a module whose factory returns the null pointer, and a shared
  object that exports neither entry point. Any other path cannot be opened.
\<close>

definition v1_module :: module where
  "v1_module = \<lparr>module_id = 1, create_operator = Some (CreateFunc (Some ScoreOperatorV1)),
     destroy_operator = Some DestroyFunc\<rparr>"

definition v2_module :: module where
  "v2_module = \<lparr>module_id = 2, create_operator = Some (CreateFunc (Some ScoreOperatorV2)),
     destroy_operator = Some DestroyFunc\<rparr>"

definition null_factory_module :: module where
  "null_factory_module = \<lparr>module_id = 3, create_operator = Some (CreateFunc None),
     destroy_operator = Some DestroyFunc\<rparr>"

definition no_symbols_module :: module where
  "no_symbols_module = \<lparr>module_id = 4, create_operator = None, destroy_operator = None\<rparr>"

definition demo_dl :: dl_world where
  "demo_dl f =
     (if f = ''./score_op_v1.so'' then Some v1_module
      else if f = ''./score_op_v2.so'' then Some v2_module
      else if f = ''./null_factory.so'' then Some null_factory_module
      else if f = ''./no_symbols.so'' then Some no_symbols_module
      else None)"

section \<open>Owners of a bundle and its teardown events\<close>

text \<open>
  The shared pointers to holder \<open>h\<close> that exist in a state: the slot \<^verbatim>\<open>g_operator\<close>,
  the locals \<^verbatim>\<open>new_holder\<close> and \<^verbatim>\<open>old_holder\<close> of a running \<^verbatim>\<open>hot_update\<close>, and the
  snapshot \<^verbatim>\<open>op_ptr\<close> of each worker.
\<close>

fun hu_owners :: "hid \<Rightarrow> hu_pc \<Rightarrow> nat" where
  "hu_owners h (HU_Load f) = 0"
| "hu_owners h (HU_AtomicLoad new) = (if new = h then 1 else 0)"
| "hu_owners h (HU_AtomicStore new old) =
     (if new = h then 1 else 0) + (if old = Some h then 1 else 0)"
| "hu_owners h (HU_Count new old) =
     (if new = h then 1 else 0) + (if old = Some h then 1 else 0)"
| "hu_owners h (HU_Print new old) =
     (if new = h then 1 else 0) + (if old = Some h then 1 else 0)"
| "hu_owners h (HU_Sleep new old) =
     (if new = h then 1 else 0) + (if old = Some h then 1 else 0)"
| "hu_owners h (HU_Return b) = 0"
| "hu_owners h HU_Segfault = 0"

fun worker_owners :: "hid \<Rightarrow> worker_pc \<Rightarrow> nat" where
  "worker_owners h (W_Round i) = 0"
| "worker_owners h (W_Check i p) = (if p = Some h then 1 else 0)"
| "worker_owners h (W_Record i h') = (if h' = h then 1 else 0)"
| "worker_owners h (W_Variant i h' op_name) = (if h' = h then 1 else 0)"
| "worker_owners h (W_Sleep i h') = (if h' = h then 1 else 0)"
| "worker_owners h W_Done = 0"
| "worker_owners h W_Segfault = 0"

fun ctl_owners :: "hid \<Rightarrow> ctl_pc \<Rightarrow> nat" where
  "ctl_owners h (C_Idle fs) = 0"
| "ctl_owners h (C_Update pc fs) = hu_owners h pc"
| "ctl_owners h C_Done = 0"

fun main_owners :: "hid \<Rightarrow> main_pc \<Rightarrow> nat" where
  "main_owners h (M_Init pc) = hu_owners h pc"
| "main_owners h M_Join = 0"
| "main_owners h M_Exit = 0"

definition slot_owner :: "hid \<Rightarrow> shared \<Rightarrow> nat" where
  "slot_owner h g = (if g_operator g = Some h then 1 else 0)"

definition owners :: "sys \<Rightarrow> hid \<Rightarrow> nat" where
  "owners s h =
     slot_owner h (sh s) + main_owners h (main s) + ctl_owners h (ctl s)
       + sum_list (map (worker_owners h) (workers s))"

text \<open>
  How often the instance of holder \<open>h\<close> was handed to \<^verbatim>\<open>destroy_operator\<close> and how often
  its module handle was handed to \<^verbatim>\<open>dlclose\<close>, so far.
\<close>

fun is_destroy_of :: "hid \<Rightarrow> event \<Rightarrow> bool" where
  "is_destroy_of h (EvDestroy h' i) = (h' = h)"
| "is_destroy_of h (EvDlopen f) = False"
| "is_destroy_of h (EvDlclose h' m) = False"
| "is_destroy_of h (EvCreate i) = False"
| "is_destroy_of h (EvStore h') = False"
| "is_destroy_of h (EvLoad t p) = False"
| "is_destroy_of h (EvCompute k i h') = False"
| "is_destroy_of h (EvNullOperator k) = False"
| "is_destroy_of h EvStderr = False"

fun is_dlclose_of :: "hid \<Rightarrow> event \<Rightarrow> bool" where
  "is_dlclose_of h (EvDlclose h' m) = (h' = h)"
| "is_dlclose_of h (EvDlopen f) = False"
| "is_dlclose_of h (EvDestroy h' i) = False"
| "is_dlclose_of h (EvCreate i) = False"
| "is_dlclose_of h (EvStore h') = False"
| "is_dlclose_of h (EvLoad t p) = False"
| "is_dlclose_of h (EvCompute k i h') = False"
| "is_dlclose_of h (EvNullOperator k) = False"
| "is_dlclose_of h EvStderr = False"

definition destroys :: "shared \<Rightarrow> hid \<Rightarrow> nat" where
  "destroys g h = length (filter (is_destroy_of h) (trace g))"

definition dlcloses :: "shared \<Rightarrow> hid \<Rightarrow> nat" where
  "dlcloses g h = length (filter (is_dlclose_of h) (trace g))"

text \<open>
  A Load Bundle is a holder that \<^verbatim>\<open>load_operator\<close> returned: it has a module handle and
  the module's destructor entry point.
\<close>

definition is_bundle :: "OperatorHolder \<Rightarrow> bool" where
  "is_bundle H = (handle H \<noteq> None \<and> destroy_func H \<noteq> None)"

text \<open>
  The state of the heap between two steps. An address not yet handed out has no owner and
  no event. A holder with an owner is a bundle and has seen no teardown. A holder without
  an owner has seen exactly what its destructor does, and one more \<^verbatim>\<open>dlclose\<close> if it
  is the left-over of a load that failed in \<^verbatim>\<open>dlsym\<close>.
\<close>

definition expected_destroys :: "OperatorHolder \<Rightarrow> nat" where
  "expected_destroys H = (if op H \<noteq> None \<and> destroy_func H \<noteq> None then 1 else 0)"

definition expected_dlcloses :: "OperatorHolder \<Rightarrow> nat" where
  "expected_dlcloses H =
     (if handle H = None then 0 else if destroy_func H = None then 2 else 1)"

definition holder_ok :: "shared \<Rightarrow> hid \<Rightarrow> bool" where
  "holder_ok g h =
     (if next_holder g \<le> h then use_count g h = 0 \<and> destroys g h = 0 \<and> dlcloses g h = 0
      else if 0 < use_count g h
        then destroys g h = 0 \<and> dlcloses g h = 0 \<and> is_bundle (holders g h)
        else destroys g h = expected_destroys (holders g h)
           \<and> dlcloses g h = expected_dlcloses (holders g h))"

definition counted :: "sys \<Rightarrow> bool" where
  "counted s = (\<forall>h. use_count (sh s) h = owners s h \<and> holder_ok (sh s) h)"

section \<open>What a snapshot may observe\<close>

text \<open>
  Read along the events of a run in the order they happened: \<open>slot_after\<close> is the bundle
  that the publishes so far have left in the slot, \<open>observes\<close> says that every
  \<^verbatim>\<open>atomic_load\<close> returned exactly that bundle, and \<open>stores\<close> lists the published
  bundles, oldest first.
\<close>

fun slot_after :: "hid option \<Rightarrow> event list \<Rightarrow> hid option" where
  "slot_after cur [] = cur"
| "slot_after cur (EvStore h # es) = slot_after (Some h) es"
| "slot_after cur (e # es) = slot_after cur es"

fun observes :: "hid option \<Rightarrow> event list \<Rightarrow> bool" where
  "observes cur [] = True"
| "observes cur (EvStore h # es) = observes (Some h) es"
| "observes cur (EvLoad t p # es) = (p = cur \<and> observes cur es)"
| "observes cur (e # es) = observes cur es"

fun stores :: "event list \<Rightarrow> hid list" where
  "stores [] = []"
| "stores (EvStore h # es) = h # stores es"
| "stores (e # es) = stores es"

text \<open>Events that neither read nor write the slot.\<close>

fun quiet :: "event list \<Rightarrow> bool" where
  "quiet [] = True"
| "quiet (EvStore h # es) = False"
| "quiet (EvLoad t p # es) = False"
| "quiet (e # es) = quiet es"

text \<open>
  The bundle a running \<^verbatim>\<open>hot_update\<close> has loaded and not yet stored into the slot.
\<close>

fun hu_unpublished :: "hu_pc \<Rightarrow> hid option" where
  "hu_unpublished (HU_AtomicLoad new) = Some new"
| "hu_unpublished (HU_AtomicStore new old) = Some new"
| "hu_unpublished pc = None"

fun main_unpublished :: "main_pc \<Rightarrow> hid option" where
  "main_unpublished (M_Init pc) = hu_unpublished pc"
| "main_unpublished m = None"

fun ctl_unpublished :: "ctl_pc \<Rightarrow> hid option" where
  "ctl_unpublished (C_Update pc fs) = hu_unpublished pc"
| "ctl_unpublished c = None"

fun ctl_idle :: "ctl_pc \<Rightarrow> bool" where
  "ctl_idle (C_Idle fs) = True"
| "ctl_idle c = False"

fun main_init :: "main_pc \<Rightarrow> bool" where
  "main_init (M_Init pc) = True"
| "main_init m = False"

definition published_ok :: "sys \<Rightarrow> bool" where
  "published_ok s =
     (observes None (history (sh s))
      \<and> (status s \<noteq> Exited \<longrightarrow> g_operator (sh s) = slot_after None (history (sh s)))
      \<and> distinct (stores (history (sh s)))
      \<and> (\<forall>h \<in> set (stores (history (sh s))). h < next_holder (sh s))
      \<and> (\<forall>h. main_unpublished (main s) = Some h \<or> ctl_unpublished (ctl s) = Some h
            \<longrightarrow> h < next_holder (sh s) \<and> h \<notin> set (stores (history (sh s))))
      \<and> (main_init (main s) \<longrightarrow> ctl_idle (ctl s)))"

text \<open>The event on the slot, if any, that a step of \<^verbatim>\<open>hot_update\<close> or of a worker adds.\<close>

fun hu_event :: "tid \<Rightarrow> hu_pc \<Rightarrow> shared \<Rightarrow> event list" where
  "hu_event t (HU_AtomicLoad new) g = [EvLoad t (g_operator g)]"
| "hu_event t (HU_AtomicStore new old) g = [EvStore new]"
| "hu_event t pc g = []"

fun worker_event :: "nat \<Rightarrow> worker_pc \<Rightarrow> shared \<Rightarrow> event list" where
  "worker_event k (W_Round i) g =
     (if i < total_rounds then [EvLoad (Worker k) (g_operator g)] else [])"
| "worker_event k pc g = []"

section \<open>The scripted run\<close>

text \<open>
  A path is loadable when \<^verbatim>\<open>dlopen\<close> succeeds, both entry points resolve and the factory
  returns an instance. A holder is usable when it exists and has an instance.
\<close>

definition loadable :: "dl_world \<Rightarrow> string \<Rightarrow> bool" where
  "loadable dl f =
     (case dl f of
        None \<Rightarrow> False
      | Some m \<Rightarrow>
          (case create_operator m of
             Some (CreateFunc (Some cls)) \<Rightarrow> destroy_operator m \<noteq> None
           | _ \<Rightarrow> False))"

definition usable :: "shared \<Rightarrow> hid \<Rightarrow> bool" where
  "usable g h = (h < next_holder g \<and> op (holders g h) \<noteq> None)"

text \<open>
  Bookkeeping along a run: the calls of \<^verbatim>\<open>hot_update\<close> that have still to increment
  \<open>hot_update_count\<close>, the rounds a worker has added to \<open>total_requests\<close>, the paths
  still to be loaded, and the local \<^verbatim>\<open>new_holder\<close> of a call.
\<close>

fun hu_uncounted :: "hu_pc \<Rightarrow> nat" where
  "hu_uncounted (HU_Load f) = 1"
| "hu_uncounted (HU_AtomicLoad new) = 1"
| "hu_uncounted (HU_AtomicStore new old) = 1"
| "hu_uncounted (HU_Count new old) = 1"
| "hu_uncounted pc = 0"

fun main_uncounted :: "main_pc \<Rightarrow> nat" where
  "main_uncounted (M_Init pc) = hu_uncounted pc"
| "main_uncounted m = 0"

fun ctl_uncounted :: "ctl_pc \<Rightarrow> nat" where
  "ctl_uncounted (C_Idle fs) = length fs"
| "ctl_uncounted (C_Update pc fs) = hu_uncounted pc + length fs"
| "ctl_uncounted C_Done = 0"

fun worker_recorded :: "worker_pc \<Rightarrow> nat" where
  "worker_recorded (W_Round i) = i"
| "worker_recorded (W_Check i p) = i"
| "worker_recorded (W_Record i h) = i"
| "worker_recorded (W_Variant i h op_name) = Suc i"
| "worker_recorded (W_Sleep i h) = Suc i"
| "worker_recorded W_Done = total_rounds"
| "worker_recorded W_Segfault = 0"

fun hu_path :: "hu_pc \<Rightarrow> string list" where
  "hu_path (HU_Load f) = [f]"
| "hu_path pc = []"

fun main_paths :: "main_pc \<Rightarrow> string list" where
  "main_paths (M_Init pc) = hu_path pc"
| "main_paths m = []"

fun ctl_paths :: "ctl_pc \<Rightarrow> string list" where
  "ctl_paths (C_Idle fs) = fs"
| "ctl_paths (C_Update pc fs) = hu_path pc @ fs"
| "ctl_paths C_Done = []"

fun hu_new :: "hu_pc \<Rightarrow> hid option" where
  "hu_new (HU_AtomicLoad new) = Some new"
| "hu_new (HU_AtomicStore new old) = Some new"
| "hu_new (HU_Count new old) = Some new"
| "hu_new (HU_Print new old) = Some new"
| "hu_new (HU_Sleep new old) = Some new"
| "hu_new pc = None"

fun main_new :: "main_pc \<Rightarrow> hid option" where
  "main_new (M_Init pc) = hu_new pc"
| "main_new m = None"

fun ctl_new :: "ctl_pc \<Rightarrow> hid option" where
  "ctl_new (C_Update pc fs) = hu_new pc"
| "ctl_new c = None"

fun hu_before_store :: "hu_pc \<Rightarrow> bool" where
  "hu_before_store (HU_Load f) = True"
| "hu_before_store (HU_AtomicLoad new) = True"
| "hu_before_store (HU_AtomicStore new old) = True"
| "hu_before_store pc = False"

fun main_before_store :: "main_pc \<Rightarrow> bool" where
  "main_before_store (M_Init pc) = hu_before_store pc"
| "main_before_store M_Join = False"
| "main_before_store M_Exit = True"

fun hu_running :: "hu_pc \<Rightarrow> bool" where
  "hu_running (HU_Return b) = False"
| "hu_running HU_Segfault = False"
| "hu_running pc = True"

fun main_running :: "main_pc \<Rightarrow> bool" where
  "main_running (M_Init pc) = hu_running pc"
| "main_running m = True"

fun ctl_running :: "ctl_pc \<Rightarrow> bool" where
  "ctl_running (C_Update pc fs) = hu_running pc"
| "ctl_running c = True"

fun worker_ok :: "shared \<Rightarrow> worker_pc \<Rightarrow> bool" where
  "worker_ok g (W_Round i) = (i \<le> total_rounds)"
| "worker_ok g (W_Check i p) = (i < total_rounds \<and> (case p of None \<Rightarrow> False | Some h \<Rightarrow> usable g h))"
| "worker_ok g (W_Record i h) = (i < total_rounds \<and> usable g h)"
| "worker_ok g (W_Variant i h op_name) = (i < total_rounds \<and> usable g h)"
| "worker_ok g (W_Sleep i h) = (i < total_rounds \<and> usable g h)"
| "worker_ok g W_Done = True"
| "worker_ok g W_Segfault = False"

text \<open>
  What holds along a run in which every load succeeds: the process neither aborts nor
  crashes, the two counters account for every finished call and round, every pointer in
  use has an instance, and the slot is empty only before the first publish and after
  \<^verbatim>\<open>main\<close> has returned.
\<close>

definition healthy :: "dl_world \<Rightarrow> nat \<Rightarrow> sys \<Rightarrow> bool" where
  "healthy dl calls s =
     (status s \<noteq> Crashed \<and> status s \<noteq> Aborted
      \<and> main_running (main s) \<and> ctl_running (ctl s)
      \<and> (\<forall>f \<in> set (main_paths (main s) @ ctl_paths (ctl s)). loadable dl f)
      \<and> hot_update_count (g_stats (sh s))
            + of_nat (main_uncounted (main s) + ctl_uncounted (ctl s)) = of_nat calls
      \<and> total_requests (g_stats (sh s)) = of_nat (sum_list (map worker_recorded (workers s)))
      \<and> (\<forall>pc \<in> set (workers s). worker_ok (sh s) pc)
      \<and> (\<forall>h. g_operator (sh s) = Some h \<longrightarrow> usable (sh s) h)
      \<and> (\<forall>h. main_new (main s) = Some h \<or> ctl_new (ctl s) = Some h \<longrightarrow> usable (sh s) h)
      \<and> (g_operator (sh s) = None \<longrightarrow> main_before_store (main s))
      \<and> (main s = M_Exit \<longrightarrow> status s = Exited))"

text \<open>
  A bound on the steps a thread has left: every step that a running thread takes lowers
  its rank.
\<close>

fun hu_rank :: "hu_pc \<Rightarrow> nat" where
  "hu_rank (HU_Load f) = 6"
| "hu_rank (HU_AtomicLoad new) = 5"
| "hu_rank (HU_AtomicStore new old) = 4"
| "hu_rank (HU_Count new old) = 3"
| "hu_rank (HU_Print new old) = 2"
| "hu_rank (HU_Sleep new old) = 1"
| "hu_rank (HU_Return b) = 0"
| "hu_rank HU_Segfault = 0"

fun main_rank :: "main_pc \<Rightarrow> nat" where
  "main_rank (M_Init pc) = Suc (hu_rank pc)"
| "main_rank M_Join = 1"
| "main_rank M_Exit = 0"

fun ctl_rank :: "ctl_pc \<Rightarrow> nat" where
  "ctl_rank (C_Idle fs) = Suc (7 * length fs)"
| "ctl_rank (C_Update pc fs) = Suc (hu_rank pc + 7 * length fs)"
| "ctl_rank C_Done = 0"

fun worker_rank :: "worker_pc \<Rightarrow> nat" where
  "worker_rank (W_Round i) = 5 * (total_rounds - i) + 1"
| "worker_rank (W_Check i p) = 5 * (total_rounds - i)"
| "worker_rank (W_Record i h) = 5 * (total_rounds - i) - 1"
| "worker_rank (W_Variant i h op_name) = 5 * (total_rounds - i) - 2"
| "worker_rank (W_Sleep i h) = 5 * (total_rounds - i) - 3"
| "worker_rank W_Done = 0"
| "worker_rank W_Segfault = 0"

definition rank :: "sys \<Rightarrow> nat" where
  "rank s = main_rank (main s) + ctl_rank (ctl s) + sum_list (map worker_rank (workers s))"

definition demo_sched :: "tid list" where
  "demo_sched =
     replicate 6 Main
     @ concat (replicate 101 [Worker 0, Worker 1, Worker 2, Worker 3, Controller])
     @ [Main]"

section \<open>Basic facts about the shared state\<close>

lemma emit_frame [simp]:
  "g_operator (emit evs g) = g_operator g"
  "g_stats (emit evs g) = g_stats g"
  "holders (emit evs g) = holders g"
  "use_count (emit evs g) = use_count g"
  "next_holder (emit evs g) = next_holder g"
  "next_inst (emit evs g) = next_inst g"
  "trace (emit evs g) = rev evs @ trace g"
  by (simp_all add: emit_def)

text \<open>The three outcomes of \<open>load_operator\<close>, written out.\<close>

lemma load_operator_dlopen_fails:
  "dl so_file = None \<Longrightarrow>
   load_operator dl so_file g =
     (None, g\<lparr>holders := (holders g)(next_holder g := new_holder),
               use_count := (use_count g)(next_holder g := 0),
               next_holder := Suc (next_holder g),
               trace := EvStderr # EvDlopen so_file # trace g\<rparr>)"
  by (simp add: load_operator_def make_shared_def set_handle_def emit_def sp_release_def
      dtor_actions_def new_holder_def Let_def)

lemma load_operator_dlsym_fails:
  "dl so_file = Some m \<Longrightarrow> create_operator m = None \<or> destroy_operator m = None \<Longrightarrow>
   load_operator dl so_file g =
     (None, g\<lparr>holders := (holders g)(next_holder g := new_holder\<lparr>handle := Some m\<rparr>),
               use_count := (use_count g)(next_holder g := 0),
               next_holder := Suc (next_holder g),
               trace := EvDlclose (next_holder g) m # EvDlclose (next_holder g) m
                          # EvStderr # EvDlopen so_file # trace g\<rparr>)"
  by (auto simp: load_operator_def make_shared_def set_handle_def emit_def sp_release_def
      dtor_actions_def new_holder_def Let_def split: option.splits)

lemma load_operator_succeeds:
  "dl so_file = Some m \<Longrightarrow> create_operator m = Some c \<Longrightarrow> destroy_operator m = Some d \<Longrightarrow>
   load_operator dl so_file g =
     (Some (next_holder g),
      (snd (call_create c g))
        \<lparr>holders := (holders g)(next_holder g :=
            \<lparr>handle = Some m, op = fst (call_create c g), destroy_func = Some d\<rparr>),
         use_count := (use_count g)(next_holder g := 1),
         next_holder := Suc (next_holder g),
         trace := (case fst (call_create c g) of None \<Rightarrow> [] | Some i \<Rightarrow> [EvCreate i])
                   @ EvDlopen so_file # trace g\<rparr>)"
  by (cases c; cases "case c of CreateFunc x \<Rightarrow> x")
     (auto simp: load_operator_def make_shared_def set_handle_def emit_def call_create_def
      new_holder_def Let_def split: option.splits)

lemma call_create_frame [simp]:
  "g_operator (snd (call_create c g)) = g_operator g"
  "g_stats (snd (call_create c g)) = g_stats g"
  by (cases c; cases "case c of CreateFunc x \<Rightarrow> x";
      simp add: call_create_def Let_def split: option.splits)+

lemma load_cases [case_names dlopen_fails dlsym_fails loaded]:
  fixes dl :: dl_world
  obtains "dl f = None"
  | m where "dl f = Some m" "create_operator m = None \<or> destroy_operator m = None"
  | m c d where "dl f = Some m" "create_operator m = Some c" "destroy_operator m = Some d"
proof (cases "dl f")
  case None
  then show ?thesis using that(1) by simp
next
  case (Some m)
  show ?thesis
  proof (cases "create_operator m = None \<or> destroy_operator m = None")
    case True
    with Some show ?thesis using that(2) by simp
  next
    case False
    with Some show ?thesis using that(3) by auto
  qed
qed

text \<open>Evaluating the model on concrete inputs.\<close>

lemma run_append: "run dl (xs @ ys) s = run dl ys (run dl xs s)"
  by (induction xs arbitrary: s) simp_all

lemmas demo_defs = demo_dl_def v1_module_def v2_module_def null_factory_module_def
  no_symbols_module_def

lemmas loader_defs = load_operator_def make_shared_def set_handle_def call_create_def emit_def
  sp_release_def sp_copy_def dtor_actions_def new_holder_def empty_shared_def new_stats_def
  history_def Let_def

lemmas model_defs = start_def load_operator_def make_shared_def
  set_handle_def call_create_def emit_def sp_release_def sp_copy_def atomic_load_def atomic_store_def
  dtor_actions_def new_holder_def empty_shared_def new_stats_def count_hot_update_def count_total_def
  count_variant_def step_def ctl_step_def worker_sys_step_def main_step_def all_done_def
  assert_hot_update_def total_rounds_def demo_defs Let_def

section \<open>Statistics\<close>

lemma record_requests_total:
  "total_requests (record_requests ns st) = total_requests st + of_nat (length ns)"
  by (induction ns arbitrary: st)
     (simp_all add: record_request_def count_total_def count_variant_def)

lemma record_requests_v1:
  "v1_requests (record_requests ns st) =
     v1_requests st + of_nat (length (filter (\<lambda>n. n = ''ScoreOperatorV1'') ns))"
  by (induction ns arbitrary: st)
     (simp_all add: record_request_def count_total_def count_variant_def)

lemma record_requests_v2:
  "v2_requests (record_requests ns st) =
     v2_requests st + of_nat (length (filter (\<lambda>n. n = ''ScoreOperatorV2'') ns))"
  by (induction ns arbitrary: st)
     (simp_all add: record_request_def count_total_def count_variant_def)

lemma record_requests_hot_update_count:
  "hot_update_count (record_requests ns st) = hot_update_count st"
  by (induction ns arbitrary: st)
     (simp_all add: record_request_def count_total_def count_variant_def)

lemma split_by_name:
  "length ns = length (filter (\<lambda>n. n = ''ScoreOperatorV1'') ns)
     + length (filter (\<lambda>n. n = ''ScoreOperatorV2'') ns) + other_requests ns"
  by (induction ns) (auto simp: other_requests_def)

lemma unat_of_nat_64: "n < 2 ^ 64 \<Longrightarrow> unat (of_nat n :: 64 word) = n"
  by (rule of_nat_inverse) simp_all

text \<open>
  Claim C6. After any sequence of \<^verbatim>\<open>record_request\<close> calls, \<open>total_requests\<close> is the
  sum of \<open>v1_requests\<close>, \<open>v2_requests\<close> and the number of calls with any other name.
  The counters are 64-bit, so the equation is one of 64-bit values; it is an equation of
  natural numbers as long as fewer than \<open>2 ^ 64\<close> calls were made. The list \<open>ns\<close> is
  any prefix of the calls, so this is every point between two calls.
\<close>

theorem counter_consistency:
  "total_requests (record_requests ns new_stats)
     = v1_requests (record_requests ns new_stats) + v2_requests (record_requests ns new_stats)
       + of_nat (other_requests ns)
   \<and> (length ns < 2 ^ 64 \<longrightarrow>
        unat (total_requests (record_requests ns new_stats))
          = unat (v1_requests (record_requests ns new_stats))
            + unat (v2_requests (record_requests ns new_stats)) + other_requests ns)"
proof
  let ?st = "record_requests ns new_stats"
  have tot: "total_requests ?st = of_nat (length ns)"
    by (simp add: record_requests_total new_stats_def)
  have v1: "v1_requests ?st = of_nat (length (filter (\<lambda>n. n = ''ScoreOperatorV1'') ns))"
    by (simp add: record_requests_v1 new_stats_def)
  have v2: "v2_requests ?st = of_nat (length (filter (\<lambda>n. n = ''ScoreOperatorV2'') ns))"
    by (simp add: record_requests_v2 new_stats_def)
  show "total_requests ?st = v1_requests ?st + v2_requests ?st + of_nat (other_requests ns)"
    unfolding tot v1 v2 by (subst split_by_name) simp
  show "length ns < 2 ^ 64 \<longrightarrow>
          unat (total_requests ?st)
            = unat (v1_requests ?st) + unat (v2_requests ?st) + other_requests ns"
  proof
    assume len: "length ns < 2 ^ 64"
    have le1: "length (filter (\<lambda>n. n = ''ScoreOperatorV1'') ns) < 2 ^ 64"
      using len length_filter_le [of "\<lambda>n. n = ''ScoreOperatorV1''" ns] by linarith
    have le2: "length (filter (\<lambda>n. n = ''ScoreOperatorV2'') ns) < 2 ^ 64"
      using len length_filter_le [of "\<lambda>n. n = ''ScoreOperatorV2''" ns] by linarith
    have u0: "unat (total_requests ?st) = length ns"
      unfolding tot using len by (rule unat_of_nat_64)
    have u1: "unat (v1_requests ?st) = length (filter (\<lambda>n. n = ''ScoreOperatorV1'') ns)"
      unfolding v1 using le1 by (rule unat_of_nat_64)
    have u2: "unat (v2_requests ?st) = length (filter (\<lambda>n. n = ''ScoreOperatorV2'') ns)"
      unfolding v2 using le2 by (rule unat_of_nat_64)
    show "unat (total_requests ?st)
            = unat (v1_requests ?st) + unat (v2_requests ?st) + other_requests ns"
      unfolding u0 u1 u2 by (rule split_by_name)
  qed
qed

theorem counter_consistency_witness:
  "length [''ScoreOperatorV1'', ''ScoreOperatorV2'', ''Plugin'', ''ScoreOperatorV2''] < (2::nat) ^ 64
   \<and> unat (total_requests (record_requests
        [''ScoreOperatorV1'', ''ScoreOperatorV2'', ''Plugin'', ''ScoreOperatorV2''] new_stats)) = 4
   \<and> other_requests [''ScoreOperatorV1'', ''ScoreOperatorV2'', ''Plugin'', ''ScoreOperatorV2''] = 1
   \<and> unat (v1_requests (record_requests
        [''ScoreOperatorV1'', ''ScoreOperatorV2'', ''Plugin'', ''ScoreOperatorV2''] new_stats)) = 1
   \<and> unat (v2_requests (record_requests
        [''ScoreOperatorV1'', ''ScoreOperatorV2'', ''Plugin'', ''ScoreOperatorV2''] new_stats)) = 2"
  using counter_consistency
    [of "[''ScoreOperatorV1'', ''ScoreOperatorV2'', ''Plugin'', ''ScoreOperatorV2'']"]
  by (simp add: other_requests_def record_request_def count_total_def count_variant_def
      new_stats_def)

section \<open>The loader and the destructor\<close>

lemma history_emit: "history (emit evs g) = history g @ evs"
  by (simp add: history_def emit_def)

lemma release_last_owner:
  "use_count g h = 1 \<Longrightarrow>
   history (sp_release (Some h) g) = history g @ dtor_actions h (holders g h)"
  by (simp add: sp_release_def Let_def history_def emit_def)

lemma dtor_destroy_before_dlclose:
  "\<exists>ds cs. dtor_actions h H = ds @ cs
      \<and> (\<forall>e\<in>set ds. is_destroy_of h e) \<and> (\<forall>e\<in>set cs. is_dlclose_of h e)"
  unfolding dtor_actions_def
  by (intro exI conjI, rule refl) (auto split: option.splits)

text \<open>
  Claim C8. A bundle that \<^verbatim>\<open>load_operator\<close> returned has a module handle, and when its
  last owner lets go the destructor first destroys the instance (when there is one)
  through the plugin's \<^verbatim>\<open>destroy_operator\<close> and only then closes the module.
\<close>

theorem teardown_order:
  assumes "load_operator dl so_file g = (Some h, g')"
  shows "\<exists>m. handle (holders g' h) = Some m
           \<and> history (sp_release (Some h) g') =
               history g' @ (case op (holders g' h) of
                               None \<Rightarrow> [EvDlclose h m]
                             | Some i \<Rightarrow> [EvDestroy h i, EvDlclose h m])"
proof (cases "dl so_file")
  case None
  with assms show ?thesis by (simp add: load_operator_dlopen_fails)
next
  case (Some m)
  show ?thesis
  proof (cases "create_operator m = None \<or> destroy_operator m = None")
    case True
    with Some assms show ?thesis by (simp add: load_operator_dlsym_fails)
  next
    case False
    then obtain c d where cd: "create_operator m = Some c" "destroy_operator m = Some d"
      by auto
    note ls = load_operator_succeeds [where dl = dl and so_file = so_file and g = g, OF Some cd]
    from assms have g': "g' = snd (load_operator dl so_file g)"
      by simp
    from assms have h: "h = next_holder g"
      unfolding ls by simp
    have uc: "use_count g' h = 1" and H: "holders g' h =
        \<lparr>handle = Some m, op = fst (call_create c g), destroy_func = Some d\<rparr>"
      by (simp_all add: g' h ls)
    show ?thesis
      by (simp add: release_last_owner [OF uc] H dtor_actions_def split: option.split)
  qed
qed

theorem teardown_order_witness:
  "load_operator demo_dl ''./score_op_v1.so'' empty_shared
     = (Some 0, snd (load_operator demo_dl ''./score_op_v1.so'' empty_shared))
   \<and> history (sp_release (Some 0) (snd (load_operator demo_dl ''./score_op_v1.so'' empty_shared)))
     = [EvDlopen ''./score_op_v1.so'', EvCreate \<lparr>inst_addr = 0, inst_class = ScoreOperatorV1\<rparr>,
        EvDestroy 0 \<lparr>inst_addr = 0, inst_class = ScoreOperatorV1\<rparr>, EvDlclose 0 v1_module]"
proof -
  have l: "load_operator demo_dl ''./score_op_v1.so'' empty_shared
     = (Some 0, snd (load_operator demo_dl ''./score_op_v1.so'' empty_shared))"
    by (simp add: loader_defs demo_defs)
  from teardown_order [OF l] show ?thesis
    using l by (simp add: loader_defs demo_defs)
qed

text \<open>
  Claim C4. The claim asks that a factory returning the null pointer makes
  \<^verbatim>\<open>load_operator\<close> fail. The source stores the result of \<^verbatim>\<open>create()\<close> unchecked: the
  caller receives a bundle whose instance is null, and \<^verbatim>\<open>hot_update\<close> publishes it and
  then dereferences the null instance.
\<close>

theorem load_operator_null_instance:
  "fst (load_operator demo_dl ''./null_factory.so'' empty_shared) = Some 0
   \<and> op (holders (snd (load_operator demo_dl ''./null_factory.so'' empty_shared)) 0) = None
   \<and> fst (hot_update demo_dl Main ''./null_factory.so'' empty_shared) = HU_Segfault
   \<and> g_operator (snd (hot_update demo_dl Main ''./null_factory.so'' empty_shared)) = Some 0"
  by (simp add: hot_update_def eval_nat_numeral loader_defs demo_defs atomic_load_def
      atomic_store_def count_hot_update_def)

text \<open>
  Claim C5. The claim asks that a module opened by a load that fails in \<^verbatim>\<open>dlsym\<close> is
  closed exactly once. The source closes it in the error branch and leaves the handle in
  the holder, whose destructor closes it again: one \<^verbatim>\<open>dlopen\<close>, two \<^verbatim>\<open>dlclose\<close>.
\<close>

theorem load_operator_double_dlclose:
  "fst (load_operator demo_dl ''./no_symbols.so'' empty_shared) = None
   \<and> history (snd (load_operator demo_dl ''./no_symbols.so'' empty_shared))
       = [EvDlopen ''./no_symbols.so'', EvStderr,
          EvDlclose 0 no_symbols_module, EvDlclose 0 no_symbols_module]"
  by (simp add: loader_defs demo_defs)

section \<open>A failed hot update\<close>

lemma load_operator_frame:
  "fst (load_operator dl so_file g) = None \<Longrightarrow>
   g_operator (snd (load_operator dl so_file g)) = g_operator g
   \<and> g_stats (snd (load_operator dl so_file g)) = g_stats g
   \<and> (\<forall>h. h \<noteq> next_holder g \<longrightarrow>
          holders (snd (load_operator dl so_file g)) h = holders g h
        \<and> use_count (snd (load_operator dl so_file g)) h = use_count g h)"
  by (cases "dl so_file")
     (auto simp: load_operator_def make_shared_def set_handle_def emit_def sp_release_def
       Let_def split: option.splits prod.splits)

text \<open>
  Claim C3. When \<^verbatim>\<open>load_operator\<close> returns no bundle, \<^verbatim>\<open>hot_update\<close> returns false, the
  slot and the statistics (so also \<open>hot_update_count\<close>) are what they were, a snapshot
  taken afterwards yields the same bundle as one taken before, and every holder that
  existed before the call keeps its fields and its owners.
\<close>

theorem failed_hot_update_is_noop:
  assumes "fst (load_operator dl so_file g) = None"
  shows "fst (hot_update dl t so_file g) = HU_Return False
     \<and> g_operator (snd (hot_update dl t so_file g)) = g_operator g
     \<and> g_stats (snd (hot_update dl t so_file g)) = g_stats g
     \<and> fst (atomic_load t' (snd (hot_update dl t so_file g))) = fst (atomic_load t' g)
     \<and> (\<forall>h. h \<noteq> next_holder g \<longrightarrow>
            holders (snd (hot_update dl t so_file g)) h = holders g h
          \<and> use_count (snd (hot_update dl t so_file g)) h = use_count g h)"
proof -
  obtain g1 where l: "load_operator dl so_file g = (None, g1)"
    using assms by (cases "load_operator dl so_file g") auto
  have hu: "hot_update dl t so_file g = (HU_Return False, emit [EvStderr] g1)"
    by (simp add: hot_update_def eval_nat_numeral l)
  from load_operator_frame [OF assms] l show ?thesis
    by (simp add: hu emit_def atomic_load_def)
qed

theorem failed_hot_update_is_noop_witness:
  "fst (load_operator demo_dl ''/nonexistent.module''
          (snd (hot_update demo_dl Main ''./score_op_v1.so'' empty_shared))) = None
   \<and> fst (hot_update demo_dl Controller ''/nonexistent.module''
            (snd (hot_update demo_dl Main ''./score_op_v1.so'' empty_shared))) = HU_Return False
   \<and> g_operator (snd (hot_update demo_dl Controller ''/nonexistent.module''
            (snd (hot_update demo_dl Main ''./score_op_v1.so'' empty_shared)))) = Some 0
   \<and> hot_update_count (g_stats (snd (hot_update demo_dl Controller ''/nonexistent.module''
            (snd (hot_update demo_dl Main ''./score_op_v1.so'' empty_shared))))) = 1"
proof -
  let ?g = "snd (hot_update demo_dl Main ''./score_op_v1.so'' empty_shared)"
  have f: "fst (load_operator demo_dl ''/nonexistent.module'' ?g) = None"
    by (simp add: load_operator_def demo_dl_def Let_def split: prod.split)
  have g0: "g_operator ?g = Some 0" "hot_update_count (g_stats ?g) = 1"
    by (simp_all add: hot_update_def eval_nat_numeral loader_defs demo_defs atomic_load_def
      atomic_store_def count_hot_update_def)
  from failed_hot_update_is_noop [OF f, of Controller] f g0 show ?thesis
    by simp
qed

section \<open>The worker's soft failure\<close>

lemma history_release:
  "\<exists>evs. history (sp_release p g) = history g @ evs
      \<and> set evs \<subseteq> (\<Union>h. set (dtor_actions h (holders g h)))"
  by (auto simp: sp_release_def history_def emit_def Let_def split: option.split)

lemma dtor_actions_no_compute: "EvCompute a b c \<notin> set (dtor_actions h H)"
  by (simp add: dtor_actions_def split: option.split)

text \<open>
  Claim C9. A worker whose snapshot is the null pointer, or a holder with a null instance,
  writes its error message and goes to the next round: the process keeps running, the
  statistics are unchanged, and no \<^verbatim>\<open>compute_score\<close> call happens in that step.
\<close>

theorem worker_soft_fail:
  assumes "status s = Running" and "main s = M_Join" and "k < length (workers s)"
    and "workers s ! k = W_Check i p"
    and "p = None \<or> (\<exists>h. p = Some h \<and> op (holders (sh s) h) = None)"
  shows "status (step dl (Worker k) s) = Running
     \<and> workers (step dl (Worker k) s) ! k = W_Round (Suc i)
     \<and> g_stats (sh (step dl (Worker k) s)) = g_stats (sh s)
     \<and> (\<exists>evs. history (sh (step dl (Worker k) s)) = history (sh s) @ EvNullOperator k # evs
            \<and> (\<forall>a b c. EvCompute a b c \<notin> set evs))"
proof -
  from assms(5) show ?thesis
  proof
    assume "p = None"
    with assms(1-4) show ?thesis
      by (simp add: step_def worker_sys_step_def history_emit)
  next
    assume "\<exists>h. p = Some h \<and> op (holders (sh s) h) = None"
    then obtain h where p: "p = Some h" and nul: "op (holders (sh s) h) = None"
      by blast
    let ?g = "emit [EvNullOperator k] (sh s)"
    have st: "step dl (Worker k) s =
        s\<lparr>sh := sp_release (Some h) ?g, workers := (workers s)[k := W_Round (Suc i)]\<rparr>"
      using assms(1-4) p nul by (simp add: step_def worker_sys_step_def)
    obtain evs where evs: "history (sp_release (Some h) ?g) = history ?g @ evs"
      and sub: "set evs \<subseteq> (\<Union>h. set (dtor_actions h (holders ?g h)))"
      using history_release [of "Some h" ?g] by blast
    have nc: "\<forall>a b c. EvCompute a b c \<notin> set evs"
      using sub dtor_actions_no_compute by blast
    have stats: "g_stats (sp_release (Some h) ?g) = g_stats (sh s)"
      by (simp add: sp_release_def emit_def Let_def)
    show ?thesis
      using assms(1,3) nc by (simp add: st evs history_emit stats)
  qed
qed

theorem worker_soft_fail_witness:
  "status (run demo_dl (replicate 6 Main @ replicate 4 Controller @ [Worker 0])
        (start ''./score_op_v1.so'' 1 [''./null_factory.so''])) = Running
   \<and> workers (run demo_dl (replicate 6 Main @ replicate 4 Controller @ [Worker 0])
        (start ''./score_op_v1.so'' 1 [''./null_factory.so''])) ! 0 = W_Check 0 (Some 1)
   \<and> op (holders (sh (run demo_dl (replicate 6 Main @ replicate 4 Controller @ [Worker 0])
        (start ''./score_op_v1.so'' 1 [''./null_factory.so'']))) 1) = None
   \<and> workers (step demo_dl (Worker 0)
        (run demo_dl (replicate 6 Main @ replicate 4 Controller @ [Worker 0])
          (start ''./score_op_v1.so'' 1 [''./null_factory.so'']))) ! 0 = W_Round 1
   \<and> total_requests (g_stats (sh (step demo_dl (Worker 0)
        (run demo_dl (replicate 6 Main @ replicate 4 Controller @ [Worker 0])
          (start ''./score_op_v1.so'' 1 [''./null_factory.so''])))))
       = total_requests (g_stats (sh
        (run demo_dl (replicate 6 Main @ replicate 4 Controller @ [Worker 0])
          (start ''./score_op_v1.so'' 1 [''./null_factory.so'']))))"
proof -
  let ?s = "run demo_dl (replicate 6 Main @ replicate 4 Controller @ [Worker 0])
    (start ''./score_op_v1.so'' 1 [''./null_factory.so''])"
  have a: "status ?s = Running" "main ?s = M_Join" "0 < length (workers ?s)"
    "workers ?s ! 0 = W_Check 0 (Some 1)"
    by (simp_all add: model_defs eval_nat_numeral run_append)
  have b: "op (holders (sh ?s) 1) = None"
    by (simp add: model_defs eval_nat_numeral run_append)
  have c: "Some (1::nat) = None \<or> (\<exists>h. Some 1 = Some h \<and> op (holders (sh ?s) h) = None)"
    using b by simp
  from worker_soft_fail [OF a c, of demo_dl] a b show ?thesis
    by simp
qed

section \<open>Steps of the system\<close>

lemma step_cases [case_names idle main_crash main_hu main_exit ctl_next ctl_done ctl_crash ctl_hu
    worker_crash worker]:
  assumes idle: "status s \<noteq> Running
        \<or> (t = Main \<and> (main s = M_Exit \<or> (main s = M_Join \<and> \<not> all_done s)))
        \<or> (t = Controller \<and> (main s \<noteq> M_Join \<or> ctl s = C_Done))
        \<or> (\<exists>k. t = Worker k \<and> (main s \<noteq> M_Join \<or> length (workers s) \<le> k))
      \<Longrightarrow> P s"
    and main_crash: "\<And>pc g'. \<lbrakk>status s = Running; main s = M_Init pc;
        hu_step dl Main pc (sh s) = (HU_Segfault, g'); t = Main\<rbrakk>
      \<Longrightarrow> P (s\<lparr>status := Crashed\<rparr>)"
    and main_hu: "\<And>pc pc' g'. \<lbrakk>status s = Running; main s = M_Init pc;
        hu_step dl Main pc (sh s) = (pc', g'); pc' \<noteq> HU_Segfault; t = Main\<rbrakk>
      \<Longrightarrow> P (s\<lparr>sh := g',
               main := (if pc' = HU_Return True then M_Join else M_Init pc'),
               status := (if pc' = HU_Return False then Aborted else Running)\<rparr>)"
    and main_exit: "\<lbrakk>status s = Running; main s = M_Join; all_done s; t = Main\<rbrakk>
      \<Longrightarrow> P (s\<lparr>sh := sp_release (g_operator (sh s)) ((sh s)\<lparr>g_operator := None\<rparr>),
               main := M_Exit, status := Exited\<rparr>)"
    and ctl_next: "\<And>f fs. \<lbrakk>status s = Running; main s = M_Join; ctl s = C_Idle (f # fs);
        t = Controller\<rbrakk>
      \<Longrightarrow> P (s\<lparr>ctl := C_Update (HU_Load f) fs\<rparr>)"
    and ctl_done: "\<lbrakk>status s = Running; main s = M_Join; ctl s = C_Idle []; t = Controller\<rbrakk>
      \<Longrightarrow> P (s\<lparr>ctl := C_Done\<rparr>)"
    and ctl_crash: "\<And>pc fs g'. \<lbrakk>status s = Running; main s = M_Join; ctl s = C_Update pc fs;
        hu_step dl Controller pc (sh s) = (HU_Segfault, g'); t = Controller\<rbrakk>
      \<Longrightarrow> P (s\<lparr>status := Crashed\<rparr>)"
    and ctl_hu: "\<And>pc fs pc' g'. \<lbrakk>status s = Running; main s = M_Join; ctl s = C_Update pc fs;
        hu_step dl Controller pc (sh s) = (pc', g'); pc' \<noteq> HU_Segfault; t = Controller\<rbrakk>
      \<Longrightarrow> P (s\<lparr>sh := g',
               ctl := (if pc' = HU_Return True then C_Idle fs else C_Update pc' fs),
               status := (if pc' = HU_Return False then Aborted else Running)\<rparr>)"
    and worker_crash: "\<And>k g'. \<lbrakk>status s = Running; main s = M_Join; k < length (workers s);
        worker_step k (workers s ! k) (sh s) = (W_Segfault, g'); t = Worker k\<rbrakk>
      \<Longrightarrow> P (s\<lparr>status := Crashed\<rparr>)"
    and worker: "\<And>k pc' g'. \<lbrakk>status s = Running; main s = M_Join; k < length (workers s);
        worker_step k (workers s ! k) (sh s) = (pc', g'); pc' \<noteq> W_Segfault;
        t = Worker k\<rbrakk>
      \<Longrightarrow> P (s\<lparr>sh := g', workers := (workers s)[k := pc']\<rparr>)"
  shows "P (step dl t s)"
proof (cases "status s = Running")
  case False
  then show ?thesis using idle by (simp add: step_def)
next
  case run: True
  show ?thesis
  proof (cases t)
    case Main
    show ?thesis
    proof (cases "main s")
      case (M_Init pc)
      obtain pc' g' where hs: "hu_step dl Main pc (sh s) = (pc', g')"
        by (cases "hu_step dl Main pc (sh s)")
      show ?thesis
      proof (cases "pc' = HU_Segfault")
        case True
        have eq: "(s\<lparr>status := Crashed\<rparr>)\<lparr>main := M_Init pc\<rparr> = s\<lparr>status := Crashed\<rparr>"
          using M_Init by simp
        have ne: "pc \<noteq> HU_Return True" using hs True by auto
        have au: "assert_hot_update dl Main pc s = (pc, s\<lparr>status := Crashed\<rparr>)"
          using hs True by (simp add: assert_hot_update_def)
        have "main_step dl s = (s\<lparr>status := Crashed\<rparr>)\<lparr>main := M_Init pc\<rparr>"
          using M_Init au ne
          by (cases pc; cases "case pc of HU_Return b \<Rightarrow> b | _ \<Rightarrow> True")
             (simp_all add: main_step_def)
        with eq run Main main_crash [OF run M_Init hs [unfolded True] Main] show ?thesis
          by (simp add: step_def)
      next
        case False
        have "step dl t s = s\<lparr>sh := g',
               main := (if pc' = HU_Return True then M_Join else M_Init pc'),
               status := (if pc' = HU_Return False then Aborted else Running)\<rparr>"
          using run Main M_Init hs False
          by (cases s; cases pc'; cases "case pc' of HU_Return b \<Rightarrow> b | _ \<Rightarrow> True")
             (simp_all add: step_def main_step_def assert_hot_update_def)
        with main_hu [OF run M_Init hs False Main] show ?thesis
          by simp
      qed
    next
      case M_Join
      with run Main idle main_exit show ?thesis
        by (simp add: step_def main_step_def)
    next
      case M_Exit
      with run Main idle show ?thesis
        by (simp add: step_def main_step_def)
    qed
  next
    case Controller
    show ?thesis
    proof (cases "main s = M_Join")
      case False
      with run Controller idle show ?thesis by (simp add: step_def)
    next
      case mj: True
      show ?thesis
      proof (cases "ctl s")
        case (C_Idle fs)
        with run Controller mj ctl_next ctl_done show ?thesis
          by (cases fs) (simp_all add: step_def ctl_step_def)
      next
        case (C_Update pc fs)
        obtain pc' g' where hs: "hu_step dl Controller pc (sh s) = (pc', g')"
          by (cases "hu_step dl Controller pc (sh s)")
        show ?thesis
        proof (cases "pc' = HU_Segfault")
          case True
          have eq: "(s\<lparr>status := Crashed\<rparr>)\<lparr>ctl := C_Update pc fs\<rparr> = s\<lparr>status := Crashed\<rparr>"
            using C_Update by simp
          have ne: "pc \<noteq> HU_Return True" using hs True by auto
          have au: "assert_hot_update dl Controller pc s = (pc, s\<lparr>status := Crashed\<rparr>)"
            using hs True by (simp add: assert_hot_update_def)
          have "ctl_step dl s = (s\<lparr>status := Crashed\<rparr>)\<lparr>ctl := C_Update pc fs\<rparr>"
            using C_Update au ne
            by (cases pc; cases "case pc of HU_Return b \<Rightarrow> b | _ \<Rightarrow> True")
               (simp_all add: ctl_step_def)
          with eq run Controller mj ctl_crash [OF run mj C_Update hs [unfolded True] Controller]
          show ?thesis
            by (simp add: step_def)
        next
          case False
          have "step dl t s = s\<lparr>sh := g',
               ctl := (if pc' = HU_Return True then C_Idle fs else C_Update pc' fs),
               status := (if pc' = HU_Return False then Aborted else Running)\<rparr>"
            using run Controller mj C_Update hs False
            by (cases s; cases pc'; cases "case pc' of HU_Return b \<Rightarrow> b | _ \<Rightarrow> True")
               (simp_all add: step_def ctl_step_def assert_hot_update_def)
          with ctl_hu [OF run mj C_Update hs False Controller] show ?thesis
            by simp
        qed
      next
        case C_Done
        with run Controller mj idle show ?thesis
          by (simp add: step_def ctl_step_def)
      qed
    qed
  next
    case (Worker k)
    show ?thesis
    proof (cases "main s = M_Join \<and> k < length (workers s)")
      case False
      with run Worker idle show ?thesis
        by (auto simp: step_def worker_sys_step_def)
    next
      case True
      obtain pc' g' where ws: "worker_step k (workers s ! k) (sh s) = (pc', g')"
        by (cases "worker_step k (workers s ! k) (sh s)")
      show ?thesis
      proof (cases "pc' = W_Segfault")
        case seg: True
        from worker_crash [OF run _ _ ws [unfolded seg] Worker] True run Worker ws seg show ?thesis
          by (simp add: step_def worker_sys_step_def)
      next
        case False
        from worker [OF run _ _ ws False Worker] True run Worker ws False show ?thesis
          by (cases pc') (auto simp: step_def worker_sys_step_def)
      qed
    qed
  qed
qed

section \<open>Reference counting\<close>

lemma sp_copy_frame [simp]:
  "g_operator (sp_copy p g) = g_operator g"
  "g_stats (sp_copy p g) = g_stats g"
  "holders (sp_copy p g) = holders g"
  "next_holder (sp_copy p g) = next_holder g"
  "next_inst (sp_copy p g) = next_inst g"
  "trace (sp_copy p g) = trace g"
  by (simp_all add: sp_copy_def split: option.split)

lemma sp_release_frame [simp]:
  "g_operator (sp_release p g) = g_operator g"
  "g_stats (sp_release p g) = g_stats g"
  "holders (sp_release p g) = holders g"
  "next_holder (sp_release p g) = next_holder g"
  "next_inst (sp_release p g) = next_inst g"
  by (simp_all add: sp_release_def Let_def split: option.split)

lemma use_count_sp_copy:
  "use_count (sp_copy p g) h = use_count g h + (if p = Some h then 1 else 0)"
  by (simp add: sp_copy_def split: option.split)

lemma use_count_sp_release:
  "(p = Some h \<longrightarrow> 0 < use_count g h) \<Longrightarrow>
   use_count (sp_release p g) h + (if p = Some h then 1 else 0) = use_count g h"
  by (auto simp: sp_release_def Let_def split: option.split)

lemma length_filter_rev [simp]: "length (filter P (rev xs)) = length (filter P xs)"
  by (simp flip: rev_filter)

lemma destroys_emit:
  "destroys (emit evs g) h = destroys g h + length (filter (is_destroy_of h) evs)"
  by (simp add: destroys_def)

lemma dlcloses_emit:
  "dlcloses (emit evs g) h = dlcloses g h + length (filter (is_dlclose_of h) evs)"
  by (simp add: dlcloses_def)

lemma dtor_destroys:
  "length (filter (is_destroy_of h) (dtor_actions h' H))
     = (if h' = h then expected_destroys H else 0)"
  by (auto simp: dtor_actions_def expected_destroys_def split: option.split)

lemma dtor_dlcloses:
  "length (filter (is_dlclose_of h) (dtor_actions h' H))
     = (if h' = h \<and> handle H \<noteq> None then 1 else 0)"
  by (auto simp: dtor_actions_def split: option.split)

lemma destroys_sp_release:
  "destroys (sp_release p g) h =
     destroys g h + (if p = Some h \<and> use_count g h \<le> 1 then expected_destroys (holders g h) else 0)"
  by (auto simp: sp_release_def Let_def destroys_emit dtor_destroys destroys_def
      split: option.split)

lemma dlcloses_sp_release:
  "dlcloses (sp_release p g) h =
     dlcloses g h + (if p = Some h \<and> use_count g h \<le> 1 \<and> handle (holders g h) \<noteq> None then 1 else 0)"
  by (auto simp: sp_release_def Let_def dlcloses_emit dtor_dlcloses dlcloses_def
      split: option.split)

lemma holder_ok_sp_copy:
  "holder_ok g h \<Longrightarrow> (p = Some h \<longrightarrow> 0 < use_count g h) \<Longrightarrow> holder_ok (sp_copy p g) h"
  by (auto simp: holder_ok_def use_count_sp_copy destroys_def dlcloses_def split: if_splits)

lemma holder_ok_sp_release:
  assumes "holder_ok g h" and "p = Some h \<longrightarrow> 0 < use_count g h"
  shows "holder_ok (sp_release p g) h"
proof (cases "p = Some h")
  case False
  then have "use_count (sp_release p g) h = use_count g h"
    using use_count_sp_release [of p h g] by simp
  with False assms(1) show ?thesis
    by (simp add: holder_ok_def destroys_sp_release dlcloses_sp_release)
next
  case True
  with assms(2) have pos: "0 < use_count g h" by simp
  from pos have uc: "use_count (sp_release (Some h) g) h = use_count g h - 1"
    using use_count_sp_release [of "Some h" h g] by simp
  from assms(1) pos have live: "\<not> next_holder g \<le> h" "destroys g h = 0" "dlcloses g h = 0"
    "is_bundle (holders g h)"
    by (auto simp: holder_ok_def split: if_splits)
  show ?thesis
    using True pos live
    by (auto simp: holder_ok_def uc destroys_sp_release dlcloses_sp_release is_bundle_def
        expected_dlcloses_def)
qed

lemma holder_ok_emit:
  "\<forall>e\<in>set evs. \<not> is_destroy_of h e \<and> \<not> is_dlclose_of h e \<Longrightarrow>
   holder_ok (emit evs g) h = holder_ok g h"
  by (simp add: holder_ok_def destroys_emit dlcloses_emit)

lemma holder_ok_upd [simp]:
  "holder_ok (g\<lparr>g_stats := st\<rparr>) h = holder_ok g h"
  "holder_ok (g\<lparr>g_operator := p\<rparr>) h = holder_ok g h"
  by (simp_all add: holder_ok_def destroys_def dlcloses_def)

lemma slot_owner_upd [simp]:
  "slot_owner h (g\<lparr>g_stats := st\<rparr>) = slot_owner h g"
  "slot_owner h (emit evs g) = slot_owner h g"
  "slot_owner h (sp_copy p g) = slot_owner h g"
  "slot_owner h (sp_release p g) = slot_owner h g"
  by (simp_all add: slot_owner_def)

lemma atomic_load_counted:
  assumes "holder_ok g h" and "slot_owner h g \<le> use_count g h"
  shows "holder_ok (snd (atomic_load t g)) h"
    and "use_count (snd (atomic_load t g)) h = use_count g h + slot_owner h g"
proof -
  have pos: "g_operator g = Some h \<longrightarrow> 0 < use_count g h"
    using assms(2) by (auto simp: slot_owner_def split: if_splits)
  show "holder_ok (snd (atomic_load t g)) h"
    using holder_ok_sp_copy [OF assms(1) pos]
    by (simp add: atomic_load_def holder_ok_emit)
  show "use_count (snd (atomic_load t g)) h = use_count g h + slot_owner h g"
    by (simp add: atomic_load_def use_count_sp_copy slot_owner_def)
qed

lemma atomic_load_frame [simp]:
  "fst (atomic_load t g) = g_operator g"
  "g_operator (snd (atomic_load t g)) = g_operator g"
  "g_stats (snd (atomic_load t g)) = g_stats g"
  "holders (snd (atomic_load t g)) = holders g"
  "next_holder (snd (atomic_load t g)) = next_holder g"
  "trace (snd (atomic_load t g)) = EvLoad t (g_operator g) # trace g"
  by (simp_all add: atomic_load_def)

lemma atomic_store_frame [simp]:
  "g_operator (atomic_store new g) = Some new"
  "g_stats (atomic_store new g) = g_stats g"
  "holders (atomic_store new g) = holders g"
  "next_holder (atomic_store new g) = next_holder g"
  by (simp_all add: atomic_store_def Let_def)

lemma atomic_store_counted:
  assumes ok: "holder_ok g h" and slot: "slot_owner h g \<le> use_count g h"
    and new: "new = h \<longrightarrow> 0 < use_count g h"
  shows "holder_ok (atomic_store new g) h"
    and "use_count (atomic_store new g) h + slot_owner h g
           = use_count g h + (if new = h then 1 else 0)"
proof -
  let ?g1 = "sp_copy (Some new) g"
  let ?g2 = "emit [EvStore new] (?g1\<lparr>g_operator := Some new\<rparr>)"
  have st: "atomic_store new g = sp_release (g_operator g) ?g2"
    by (simp add: atomic_store_def Let_def)
  have ok1: "holder_ok ?g1 h"
    using holder_ok_sp_copy [OF ok, of "Some new"] new by simp
  have ok2: "holder_ok ?g2 h"
    using ok1 by (simp add: holder_ok_emit)
  have uc2: "use_count ?g2 h = use_count g h + (if new = h then 1 else 0)"
    by (simp add: use_count_sp_copy)
  have pos: "g_operator g = Some h \<longrightarrow> 0 < use_count ?g2 h"
    using slot by (auto simp: use_count_sp_copy slot_owner_def split: if_splits)
  show "holder_ok (atomic_store new g) h"
    unfolding st using ok2 pos by (rule holder_ok_sp_release)
  show "use_count (atomic_store new g) h + slot_owner h g
           = use_count g h + (if new = h then 1 else 0)"
    unfolding st using use_count_sp_release [OF pos] uc2
    by (simp add: slot_owner_def)
qed

lemma load_operator_frame_ok [simp]:
  "g_operator (snd (load_operator dl f g)) = g_operator g"
  "g_stats (snd (load_operator dl f g)) = g_stats g"
  "next_holder (snd (load_operator dl f g)) = Suc (next_holder g)"
proof -
  consider (a) "dl f = None"
    | (b) m where "dl f = Some m" "create_operator m = None \<or> destroy_operator m = None"
    | (c) m c d where "dl f = Some m" "create_operator m = Some c" "destroy_operator m = Some d"
    by (rule load_cases)
  then show "g_operator (snd (load_operator dl f g)) = g_operator g"
    "g_stats (snd (load_operator dl f g)) = g_stats g"
    "next_holder (snd (load_operator dl f g)) = Suc (next_holder g)"
    by (cases; simp add: load_operator_dlopen_fails load_operator_dlsym_fails
        load_operator_succeeds [where dl = dl and so_file = f])+
qed

lemma load_operator_result:
  "fst (load_operator dl f g) = None \<or> fst (load_operator dl f g) = Some (next_holder g)"
proof -
  consider (a) "dl f = None"
    | (b) m where "dl f = Some m" "create_operator m = None \<or> destroy_operator m = None"
    | (c) m c d where "dl f = Some m" "create_operator m = Some c" "destroy_operator m = Some d"
    by (rule load_cases)
  then show ?thesis
    by cases (simp_all add: load_operator_dlopen_fails load_operator_dlsym_fails
        load_operator_succeeds [where dl = dl and so_file = f])
qed

lemma load_operator_old_holders:
  "h \<noteq> next_holder g \<Longrightarrow> holders (snd (load_operator dl f g)) h = holders g h"
proof -
  assume ne: "h \<noteq> next_holder g"
  consider (a) "dl f = None"
    | (b) m where "dl f = Some m" "create_operator m = None \<or> destroy_operator m = None"
    | (c) m c d where "dl f = Some m" "create_operator m = Some c" "destroy_operator m = Some d"
    by (rule load_cases)
  then show ?thesis using ne
    by cases (simp_all add: load_operator_dlopen_fails load_operator_dlsym_fails
        load_operator_succeeds [where dl = dl and so_file = f])
qed

lemma load_operator_counted:
  assumes ok: "holder_ok g h" and fresh: "holder_ok g (next_holder g)"
  shows "holder_ok (snd (load_operator dl f g)) h"
    and "use_count (snd (load_operator dl f g)) h
           = use_count g h + (if fst (load_operator dl f g) = Some h then 1 else 0)"
proof -
  from fresh have f0: "use_count g (next_holder g) = 0" "destroys g (next_holder g) = 0"
    "dlcloses g (next_holder g) = 0"
    by (simp_all add: holder_ok_def)
  consider (a) "dl f = None"
    | (b) m where "dl f = Some m" "create_operator m = None \<or> destroy_operator m = None"
    | (c) m c d where "dl f = Some m" "create_operator m = Some c" "destroy_operator m = Some d"
    by (rule load_cases)
  then have "holder_ok (snd (load_operator dl f g)) h
    \<and> use_count (snd (load_operator dl f g)) h
           = use_count g h + (if fst (load_operator dl f g) = Some h then 1 else 0)"
  proof cases
    case a
    with ok f0 show ?thesis
      by (auto simp: load_operator_dlopen_fails holder_ok_def destroys_def dlcloses_def
          new_holder_def expected_destroys_def expected_dlcloses_def split: if_splits)
  next
    case b
    with ok f0 show ?thesis
      by (auto simp: load_operator_dlsym_fails holder_ok_def destroys_def dlcloses_def
          new_holder_def expected_destroys_def expected_dlcloses_def split: if_splits)
  next
    case c
    with ok f0 show ?thesis
      by (auto simp: load_operator_succeeds [where dl = dl and so_file = f] holder_ok_def
          destroys_def dlcloses_def is_bundle_def split: if_splits option.splits)
  qed
  then show "holder_ok (snd (load_operator dl f g)) h"
    and "use_count (snd (load_operator dl f g)) h
           = use_count g h + (if fst (load_operator dl f g) = Some h then 1 else 0)"
    by simp_all
qed

lemma atomic_load_eq [simp]:
  "atomic_load t g = (p, g') \<longleftrightarrow> p = g_operator g \<and> g' = snd (atomic_load t g)"
  by (auto simp: atomic_load_def)

lemma load_operator_eqD:
  "load_operator dl f g = (r, g') \<Longrightarrow>
   r = fst (load_operator dl f g) \<and> g' = snd (load_operator dl f g)"
  by simp

lemma hu_step_counted:
  assumes st: "hu_step dl t pc g = (pc', g')" and ns: "pc' \<noteq> HU_Segfault"
    and ok: "\<forall>h. holder_ok g h"
    and own: "\<forall>h. slot_owner h g + hu_owners h pc \<le> use_count g h"
  shows "holder_ok g' h
     \<and> use_count g' h + slot_owner h g + hu_owners h pc
         = use_count g h + slot_owner h g' + hu_owners h pc'"
proof (cases pc)
  case (HU_Load f)
  have g': "g' = (if fst (load_operator dl f g) = None
                  then emit [EvStderr] (snd (load_operator dl f g))
                  else snd (load_operator dl f g))"
    and pc': "pc' = (case fst (load_operator dl f g) of None \<Rightarrow> HU_Return False
                     | Some h \<Rightarrow> HU_AtomicLoad h)"
    using st HU_Load by (auto split: prod.splits option.splits)
  have okh: "holder_ok g h" and okn: "holder_ok g (next_holder g)"
    using ok by simp_all
  from load_operator_counted [OF okh okn, of dl f] show ?thesis
    using HU_Load
    by (auto simp: g' pc' holder_ok_emit slot_owner_def split: option.splits)
next
  case (HU_AtomicLoad new)
  have okh: "holder_ok g h" and sl: "slot_owner h g \<le> use_count g h"
    using ok own [rule_format, of h] by simp_all
  from st HU_AtomicLoad have g': "g' = snd (atomic_load t g)"
    and pc': "pc' = HU_AtomicStore new (g_operator g)"
    by (auto split: prod.splits)
  from atomic_load_counted [OF okh sl, of t] show ?thesis
    using HU_AtomicLoad by (auto simp: g' pc' slot_owner_def)
next
  case (HU_AtomicStore new old)
  have okh: "holder_ok g h" and sl: "slot_owner h g \<le> use_count g h"
    and nw: "new = h \<longrightarrow> 0 < use_count g h"
    using ok own [rule_format, of h] HU_AtomicStore by (auto split: if_splits)
  from st HU_AtomicStore have g': "g' = atomic_store new g" and pc': "pc' = HU_Count new old"
    by auto
  from atomic_store_counted [OF okh sl nw] show ?thesis
    using HU_AtomicStore by (auto simp: g' pc' slot_owner_def)
next
  case (HU_Count new old)
  with st ok show ?thesis by auto
next
  case (HU_Print new old)
  with st ns ok show ?thesis by (auto split: option.splits)
next
  case (HU_Sleep new old)
  let ?g1 = "sp_release old g"
  from st HU_Sleep have g': "g' = sp_release (Some new) ?g1" and pc': "pc' = HU_Return True"
    by auto
  have okh: "holder_ok g h" using ok by simp
  have le: "(if new = h then 1 else 0) + (if old = Some h then 1 else 0) \<le> use_count g h"
    using own [rule_format, of h] HU_Sleep by simp
  have p1: "old = Some h \<longrightarrow> 0 < use_count g h"
    using le by (auto split: if_splits)
  have u1: "use_count ?g1 h + (if old = Some h then 1 else 0) = use_count g h"
    using p1 by (rule use_count_sp_release)
  have ok1: "holder_ok ?g1 h"
    using okh p1 by (rule holder_ok_sp_release)
  have p2: "Some new = Some h \<longrightarrow> 0 < use_count ?g1 h"
    using le u1 by (auto split: if_splits)
  have u2: "use_count g' h + (if Some new = Some h then 1 else 0) = use_count ?g1 h"
    unfolding g' using p2 by (rule use_count_sp_release)
  have ok2: "holder_ok g' h"
    unfolding g' using ok1 p2 by (rule holder_ok_sp_release)
  show ?thesis
    using ok2 u1 u2 HU_Sleep by (auto simp: pc' g' split: if_splits)
next
  case (HU_Return b)
  with st ok show ?thesis by auto
next
  case HU_Segfault
  with st ns show ?thesis by auto
qed

lemma hu_step_slot:
  "hu_step dl t pc g = (pc', g') \<Longrightarrow>
   g_operator g' = (case pc of HU_AtomicStore new old \<Rightarrow> Some new | _ \<Rightarrow> g_operator g)"
  by (cases pc) (auto split: prod.splits option.splits dest!: load_operator_eqD)

lemma worker_step_counted:
  assumes st: "worker_step k pc g = (pc', g')" and ns: "pc' \<noteq> W_Segfault"
    and ok: "\<forall>h. holder_ok g h"
    and own: "\<forall>h. slot_owner h g + worker_owners h pc \<le> use_count g h"
  shows "holder_ok g' h
     \<and> use_count g' h + worker_owners h pc = use_count g h + worker_owners h pc'
     \<and> g_operator g' = g_operator g"
proof (cases pc)
  case (W_Round i)
  have okh: "holder_ok g h" and sl: "slot_owner h g \<le> use_count g h"
    using ok own [rule_format, of h] by simp_all
  from atomic_load_counted [OF okh sl, of "Worker k"] show ?thesis
    using st W_Round okh
    by (auto simp: slot_owner_def split: if_splits prod.splits)
next
  case (W_Check i p)
  have okh: "holder_ok g h" using ok by simp
  have pos: "p = Some h \<longrightarrow> 0 < use_count (emit [EvNullOperator k] g) h"
    using own [rule_format, of h] W_Check by (auto split: if_splits)
  have oke: "holder_ok (emit [EvNullOperator k] g) h"
    using okh by (simp add: holder_ok_emit)
  from holder_ok_sp_release [OF oke pos] use_count_sp_release [OF pos] show ?thesis
    using st W_Check okh
    by (auto simp: holder_ok_emit split: option.splits if_splits)
next
  case (W_Record i h')
  with st ns ok show ?thesis by (auto split: option.splits)
next
  case (W_Variant i h' op_name)
  with st ok show ?thesis by auto
next
  case (W_Sleep i h')
  have okh: "holder_ok g h" using ok by simp
  have pos: "Some h' = Some h \<longrightarrow> 0 < use_count g h"
    using own [rule_format, of h] W_Sleep by (auto split: if_splits)
  from holder_ok_sp_release [OF okh pos] use_count_sp_release [OF pos] show ?thesis
    using st W_Sleep by (auto split: if_splits)
next
  case W_Done
  with st ok show ?thesis by auto
next
  case W_Segfault
  with st ns show ?thesis by auto
qed

lemma sum_list_map_update:
  "k < length xs \<Longrightarrow>
   sum_list (map f (xs[k := x])) + f (xs ! k) = sum_list (map f xs) + (f x :: nat)"
proof (induction xs arbitrary: k)
  case Nil
  then show ?case by simp
next
  case (Cons a xs)
  then show ?case by (cases k) auto
qed

lemma worker_owner_le:
  "k < length ws \<Longrightarrow> worker_owners h (ws ! k) \<le> sum_list (map (worker_owners h) ws)"
  by (simp add: member_le_sum_list)

lemma counted_own:
  assumes "counted s"
  shows "\<forall>h. holder_ok (sh s) h"
    and "\<forall>h. slot_owner h (sh s) + main_owners h (main s) \<le> use_count (sh s) h"
    and "\<forall>h. slot_owner h (sh s) + ctl_owners h (ctl s) \<le> use_count (sh s) h"
    and "k < length (workers s) \<Longrightarrow>
         \<forall>h. slot_owner h (sh s) + worker_owners h (workers s ! k) \<le> use_count (sh s) h"
proof -
  show "\<forall>h. holder_ok (sh s) h"
    and "\<forall>h. slot_owner h (sh s) + main_owners h (main s) \<le> use_count (sh s) h"
    and "\<forall>h. slot_owner h (sh s) + ctl_owners h (ctl s) \<le> use_count (sh s) h"
    using assms by (simp_all add: counted_def owners_def)
  assume k: "k < length (workers s)"
  show "\<forall>h. slot_owner h (sh s) + worker_owners h (workers s ! k) \<le> use_count (sh s) h"
  proof
    fix h
    have "use_count (sh s) h = owners s h"
      using assms by (simp add: counted_def)
    with worker_owner_le [OF k, of h]
    show "slot_owner h (sh s) + worker_owners h (workers s ! k) \<le> use_count (sh s) h"
      by (simp add: owners_def)
  qed
qed

lemma counted_step:
  assumes c: "counted s"
  shows "counted (step dl t s)"
proof (induction rule: step_cases)
  case idle
  show ?case by (rule c)
next
  case (main_crash pc g')
  from c show ?case by (simp add: counted_def owners_def)
next
  case (main_hu pc pc' g')
  have own: "\<forall>h. slot_owner h (sh s) + hu_owners h pc \<le> use_count (sh s) h"
    using counted_own(2) [OF c] main_hu(2) by simp
  have "\<And>h. holder_ok g' h
     \<and> use_count g' h + slot_owner h (sh s) + hu_owners h pc
         = use_count (sh s) h + slot_owner h g' + hu_owners h pc'"
    by (rule hu_step_counted [OF main_hu(3,4) counted_own(1) [OF c] own])
  moreover have "\<And>h. use_count (sh s) h = owners s h"
    using c by (simp add: counted_def)
  ultimately show ?case
    using main_hu(2) by (auto simp: counted_def owners_def)
next
  case main_exit
  let ?g = "(sh s)\<lparr>g_operator := None\<rparr>"
  have idle: "\<And>h. main_owners h (main s) = 0 \<and> ctl_owners h (ctl s) = 0
      \<and> sum_list (map (worker_owners h) (workers s)) = 0"
    using main_exit by (auto simp: all_done_def list_all_iff)
  have uc: "\<And>h. use_count (sh s) h = slot_owner h (sh s)"
    using c idle by (simp add: counted_def owners_def)
  have pos: "\<And>h. g_operator (sh s) = Some h \<longrightarrow> 0 < use_count ?g h"
    by (simp add: uc slot_owner_def)
  have ok: "\<And>h. holder_ok ?g h"
    using c by (simp add: counted_def)
  show ?case
    using holder_ok_sp_release [OF ok pos] use_count_sp_release [OF pos] idle uc
    by (auto simp: counted_def owners_def slot_owner_def split: if_splits)
next
  case (ctl_next f fs)
  with c show ?case by (simp add: counted_def owners_def)
next
  case ctl_done
  with c show ?case by (simp add: counted_def owners_def)
next
  case (ctl_crash pc fs g')
  from c show ?case by (simp add: counted_def owners_def)
next
  case (ctl_hu pc fs pc' g')
  have own: "\<forall>h. slot_owner h (sh s) + hu_owners h pc \<le> use_count (sh s) h"
    using counted_own(3) [OF c] ctl_hu(3) by simp
  have "\<And>h. holder_ok g' h
     \<and> use_count g' h + slot_owner h (sh s) + hu_owners h pc
         = use_count (sh s) h + slot_owner h g' + hu_owners h pc'"
    by (rule hu_step_counted [OF ctl_hu(4,5) counted_own(1) [OF c] own])
  moreover have "\<And>h. use_count (sh s) h = owners s h"
    using c by (simp add: counted_def)
  ultimately show ?case
    using ctl_hu(3) by (auto simp: counted_def owners_def)
next
  case (worker_crash k g')
  from c show ?case by (simp add: counted_def owners_def)
next
  case (worker k pc' g')
  have st: "\<And>h. holder_ok g' h
     \<and> use_count g' h + worker_owners h (workers s ! k)
         = use_count (sh s) h + worker_owners h pc'
     \<and> g_operator g' = g_operator (sh s)"
    by (rule worker_step_counted
        [OF worker(4,5) counted_own(1) [OF c] counted_own(4) [OF c worker(3)]])
  have uc: "\<And>h. use_count (sh s) h = owners s h"
    using c by (simp add: counted_def)
  show ?case
    unfolding counted_def
  proof (intro allI conjI)
    fix h
    show "holder_ok (sh (s\<lparr>sh := g', workers := (workers s)[k := pc']\<rparr>)) h"
      using st by simp
    have "sum_list (map (worker_owners h) ((workers s)[k := pc'])) + worker_owners h (workers s ! k)
        = sum_list (map (worker_owners h) (workers s)) + worker_owners h pc'"
      using worker(3) by (rule sum_list_map_update)
    with st [of h] uc [of h]
    show "use_count (sh (s\<lparr>sh := g', workers := (workers s)[k := pc']\<rparr>)) h
        = owners (s\<lparr>sh := g', workers := (workers s)[k := pc']\<rparr>) h"
      by (simp add: owners_def slot_owner_def)
  qed
qed

lemma counted_run: "counted s \<Longrightarrow> counted (run dl sched s)"
  by (induction sched arbitrary: s) (simp_all add: counted_step)

lemma counted_start: "counted (start first n script)"
  by (simp add: counted_def start_def owners_def slot_owner_def empty_shared_def holder_ok_def
      destroys_def dlcloses_def)

lemma exited_step:
  assumes "status s = Exited \<longrightarrow> g_operator (sh s) = None \<and> all_done s \<and> main s = M_Exit"
  shows "status (step dl t s) = Exited \<longrightarrow>
     g_operator (sh (step dl t s)) = None \<and> all_done (step dl t s) \<and> main (step dl t s) = M_Exit"
proof (induction rule: step_cases)
  case idle
  show ?case by (rule assms)
next
  case main_exit
  then show ?case by (simp add: all_done_def)
qed (simp_all add: all_done_def)

lemma exited_run:
  "status s = Exited \<longrightarrow> g_operator (sh s) = None \<and> all_done s \<and> main s = M_Exit \<Longrightarrow>
   status (run dl sched s) = Exited \<longrightarrow>
     g_operator (sh (run dl sched s)) = None \<and> all_done (run dl sched s)
     \<and> main (run dl sched s) = M_Exit"
proof (induction sched arbitrary: s)
  case Nil
  then show ?case by simp
next
  case (Cons t ts)
  show ?case
    using Cons.IH [OF exited_step [OF Cons.prems]] by simp
qed

lemma exited_no_owner:
  "g_operator (sh s) = None \<Longrightarrow> all_done s \<Longrightarrow> main s = M_Exit \<Longrightarrow> owners s h = 0"
  by (auto simp: owners_def slot_owner_def all_done_def list_all_iff)

text \<open>
  Claim C1. In every state that any interleaving of the threads can reach, for every
  bundle: the reference count equals the number of shared pointers to it (the slot, the
  locals of a running \<^verbatim>\<open>hot_update\<close>, the workers' snapshots); while that number is
  positive neither \<^verbatim>\<open>destroy_operator\<close> nor \<^verbatim>\<open>dlclose\<close> has been called for it; when it is
  zero \<^verbatim>\<open>dlclose\<close> was called exactly once and \<^verbatim>\<open>destroy_operator\<close> exactly once on
  its instance (if it has one); neither is ever called twice; and once \<^verbatim>\<open>main\<close> has
  returned no owner is left, so every bundle has been torn down exactly once.
\<close>

theorem exactly_once_teardown:
  assumes run: "s = run dl sched (start first n script)"
    and h: "h < next_holder (sh s)" and isb: "is_bundle (holders (sh s) h)"
  shows "use_count (sh s) h = owners s h
     \<and> (0 < owners s h \<longrightarrow> destroys (sh s) h = 0 \<and> dlcloses (sh s) h = 0)
     \<and> (owners s h = 0 \<longrightarrow>
          dlcloses (sh s) h = 1
          \<and> destroys (sh s) h = (if op (holders (sh s) h) = None then 0 else 1))
     \<and> destroys (sh s) h \<le> 1 \<and> dlcloses (sh s) h \<le> 1
     \<and> (status s = Exited \<longrightarrow> owners s h = 0)"
proof -
  have c: "counted s"
    unfolding run by (rule counted_run [OF counted_start])
  then have uc: "use_count (sh s) h = owners s h" and ok: "holder_ok (sh s) h"
    by (simp_all add: counted_def)
  have ex: "status s = Exited \<longrightarrow> owners s h = 0"
    using exited_run [of "start first n script" dl sched] exited_no_owner [of s h]
    by (simp add: run start_def)
  from ok h isb uc ex show ?thesis
    by (auto simp: holder_ok_def is_bundle_def expected_destroys_def expected_dlcloses_def
        split: if_splits)
qed

theorem exactly_once_teardown_witness:
  "0 < next_holder (sh (run demo_dl
        (replicate 6 Main @ [Worker 0] @ replicate 7 Controller)
        (start ''./score_op_v1.so'' 1 [''./score_op_v2.so''])))
   \<and> is_bundle (holders (sh (run demo_dl
        (replicate 6 Main @ [Worker 0] @ replicate 7 Controller)
        (start ''./score_op_v1.so'' 1 [''./score_op_v2.so'']))) 0)
   \<and> owners (run demo_dl
        (replicate 6 Main @ [Worker 0] @ replicate 7 Controller)
        (start ''./score_op_v1.so'' 1 [''./score_op_v2.so''])) 0 = 1
   \<and> g_operator (sh (run demo_dl
        (replicate 6 Main @ [Worker 0] @ replicate 7 Controller)
        (start ''./score_op_v1.so'' 1 [''./score_op_v2.so'']))) = Some 1
   \<and> destroys (sh (run demo_dl
        (replicate 6 Main @ [Worker 0] @ replicate 7 Controller)
        (start ''./score_op_v1.so'' 1 [''./score_op_v2.so'']))) 0 = 0
   \<and> dlcloses (sh (run demo_dl
        (replicate 6 Main @ [Worker 0] @ replicate 7 Controller)
        (start ''./score_op_v1.so'' 1 [''./score_op_v2.so'']))) 0 = 0"
proof -
  let ?s = "run demo_dl (replicate 6 Main @ [Worker 0] @ replicate 7 Controller)
    (start ''./score_op_v1.so'' 1 [''./score_op_v2.so''])"
  have a: "0 < next_holder (sh ?s)"
    by (simp add: model_defs eval_nat_numeral run_append)
  have b: "is_bundle (holders (sh ?s) 0)"
    by (simp add: model_defs eval_nat_numeral run_append is_bundle_def)
  have c: "owners ?s 0 = 1"
    by (simp add: model_defs eval_nat_numeral run_append owners_def slot_owner_def)
  have d: "g_operator (sh ?s) = Some 1"
    by (simp add: model_defs eval_nat_numeral run_append)
  from exactly_once_teardown [OF refl a b] a b c d show ?thesis
    by simp
qed

section \<open>Publication order\<close>

lemma slot_after_append: "slot_after cur (xs @ ys) = slot_after (slot_after cur xs) ys"
  by (induction cur xs rule: slot_after.induct) simp_all

lemma observes_append:
  "observes cur (xs @ ys) \<longleftrightarrow> observes cur xs \<and> observes (slot_after cur xs) ys"
  by (induction cur xs rule: observes.induct) auto

lemma stores_append: "stores (xs @ ys) = stores xs @ stores ys"
  by (induction xs rule: stores.induct) simp_all

lemma quiet_append: "quiet (xs @ ys) \<longleftrightarrow> quiet xs \<and> quiet ys"
  by (induction xs rule: quiet.induct) simp_all

lemma quiet_slot_after: "quiet es \<Longrightarrow> slot_after cur es = cur"
  by (induction cur es rule: slot_after.induct) simp_all

lemma quiet_observes: "quiet es \<Longrightarrow> observes cur es"
  by (induction cur es rule: observes.induct) simp_all

lemma quiet_stores: "quiet es \<Longrightarrow> stores es = []"
  by (induction es rule: stores.induct) simp_all

lemma quiet_dtor: "quiet (dtor_actions h H)"
  by (simp add: dtor_actions_def split: option.split)

lemma slot_after_Some:
  "slot_after (Some b) es = Some b' \<Longrightarrow> b' = b \<or> b' \<in> set (stores es)"
  by (induction "Some b" es arbitrary: b rule: slot_after.induct) auto

lemma slot_after_Some_ex: "\<exists>b'. slot_after (Some b) es = Some b'"
  by (induction "Some b" es arbitrary: b rule: slot_after.induct) auto

lemma history_sp_release:
  "\<exists>evs. quiet evs \<and> history (sp_release p g) = history g @ evs"
  by (cases p) (auto simp: sp_release_def Let_def history_def quiet_dtor intro: exI [of _ "[]"])

lemma history_sp_copy [simp]: "history (sp_copy p g) = history g"
  by (simp add: history_def)

lemma history_atomic_load:
  "history (snd (atomic_load t g)) = history g @ [EvLoad t (g_operator g)]"
  by (simp add: atomic_load_def history_emit)

lemma history_atomic_store:
  "\<exists>evs. quiet evs \<and> history (atomic_store new g) = history g @ EvStore new # evs"
proof -
  let ?g2 = "emit [EvStore new] ((sp_copy (Some new) g)\<lparr>g_operator := Some new\<rparr>)"
  obtain evs where "quiet evs" "history (sp_release (g_operator g) ?g2) = history ?g2 @ evs"
    using history_sp_release by blast
  then show ?thesis
    by (auto simp: atomic_store_def Let_def history_emit history_def)
qed

lemma history_load_operator:
  "\<exists>evs. quiet evs \<and> history (snd (load_operator dl f g)) = history g @ evs"
proof (cases dl f rule: load_cases)
  case dlopen_fails
  then show ?thesis
    by (simp add: load_operator_dlopen_fails history_def)
next
  case (dlsym_fails m)
  then show ?thesis
    by (simp add: load_operator_dlsym_fails history_def)
next
  case (loaded m c d)
  then show ?thesis
    by (simp add: load_operator_succeeds [where dl = dl and so_file = f] history_def
        quiet_append split: option.split)
qed


lemma hu_step_history:
  assumes "hu_step dl t pc g = (pc', g')"
  shows "\<exists>evs. quiet evs \<and> history g' = history g @ hu_event t pc g @ evs"
proof (cases pc)
  case (HU_Load f)
  obtain evs where "quiet evs" "history (snd (load_operator dl f g)) = history g @ evs"
    using history_load_operator by blast
  with assms HU_Load show ?thesis
    by (auto simp: history_emit quiet_append split: prod.splits option.splits
        dest!: load_operator_eqD)
next
  case (HU_AtomicLoad new)
  with assms show ?thesis
    by (auto simp: history_atomic_load split: prod.splits intro: exI [of _ "[]"])
next
  case (HU_AtomicStore new old)
  with assms history_atomic_store [of new g] show ?thesis by auto
next
  case (HU_Count new old)
  with assms show ?thesis by (auto simp: history_def intro: exI [of _ "[]"])
next
  case (HU_Print new old)
  with assms show ?thesis by (auto split: option.splits intro: exI [of _ "[]"])
next
  case (HU_Sleep new old)
  obtain e1 where e1: "quiet e1" "history (sp_release old g) = history g @ e1"
    using history_sp_release by blast
  obtain e2 where e2: "quiet e2"
    "history (sp_release (Some new) (sp_release old g)) = history (sp_release old g) @ e2"
    using history_sp_release by blast
  from assms HU_Sleep e1 e2 show ?thesis
    by (auto simp: quiet_append intro: exI [of _ "e1 @ e2"])
next
  case (HU_Return b)
  with assms show ?thesis by (auto intro: exI [of _ "[]"])
next
  case HU_Segfault
  with assms show ?thesis by (auto intro: exI [of _ "[]"])
qed

lemma hu_step_next_holder:
  "hu_step dl t pc g = (pc', g') \<Longrightarrow>
   next_holder g' = (case pc of HU_Load f \<Rightarrow> Suc (next_holder g) | _ \<Rightarrow> next_holder g)"
  by (cases pc) (auto split: prod.splits option.splits dest!: load_operator_eqD)

lemma hu_step_unpublished:
  "hu_step dl t pc g = (pc', g') \<Longrightarrow> hu_unpublished pc' = Some h \<Longrightarrow>
   (hu_unpublished pc = Some h \<and> (\<exists>new. pc = HU_AtomicLoad new))
   \<or> (h = next_holder g \<and> (\<exists>f. pc = HU_Load f))"
proof (cases pc)
  case (HU_Load f)
  assume "hu_step dl t pc g = (pc', g')" "hu_unpublished pc' = Some h"
  with HU_Load load_operator_result [of dl f g] show ?thesis
    by (auto split: prod.splits option.splits dest!: load_operator_eqD)
qed (auto split: prod.splits option.splits)

lemma worker_step_history:
  assumes "worker_step k pc g = (pc', g')"
  shows "\<exists>evs. quiet evs \<and> history g' = history g @ worker_event k pc g @ evs"
proof (cases pc)
  case (W_Round i)
  with assms show ?thesis
    by (auto simp: history_atomic_load split: if_splits prod.splits intro: exI [of _ "[]"])
next
  case (W_Check i p)
  show ?thesis
  proof (cases p)
    case None
    with assms W_Check show ?thesis
      by (auto simp: history_emit intro: exI [of _ "[EvNullOperator k]"])
  next
    case (Some h)
    obtain e where e: "quiet e" "history (sp_release (Some h) (emit [EvNullOperator k] g))
        = history (emit [EvNullOperator k] g) @ e"
      using history_sp_release by blast
    from assms W_Check Some e show ?thesis
      by (auto simp: history_emit split: option.splits
          intro: exI [of _ "EvNullOperator k # e"] exI [of _ "[EvCompute k i h]"])
  qed
next
  case (W_Record i h)
  with assms show ?thesis by (auto simp: history_def split: option.splits intro: exI [of _ "[]"])
next
  case (W_Variant i h op_name)
  with assms show ?thesis by (auto simp: history_def intro: exI [of _ "[]"])
next
  case (W_Sleep i h)
  with assms history_sp_release [of "Some h" g] show ?thesis by auto
next
  case W_Done
  with assms show ?thesis by (auto intro: exI [of _ "[]"])
next
  case W_Segfault
  with assms show ?thesis by (auto intro: exI [of _ "[]"])
qed

lemma worker_step_slot:
  "worker_step k pc g = (pc', g') \<Longrightarrow>
   g_operator g' = g_operator g \<and> next_holder g' = next_holder g \<and> holders g' = holders g"
  by (cases pc) (auto split: if_splits option.splits prod.splits)


lemma pub_hu_step:
  assumes st: "hu_step dl t pc g = (pc', g')"
    and obs: "observes None (history g)"
    and slot: "g_operator g = slot_after None (history g)"
    and dist: "distinct (stores (history g))"
    and bound: "\<forall>h\<in>set (stores (history g)). h < next_holder g"
    and unp: "\<forall>h. hu_unpublished pc = Some h \<longrightarrow>
                h < next_holder g \<and> h \<notin> set (stores (history g))"
  shows "observes None (history g')
     \<and> g_operator g' = slot_after None (history g')
     \<and> distinct (stores (history g'))
     \<and> (\<forall>h\<in>set (stores (history g')). h < next_holder g')
     \<and> (\<forall>h. hu_unpublished pc' = Some h \<longrightarrow>
            h < next_holder g' \<and> h \<notin> set (stores (history g')))"
proof -
  obtain evs where q: "quiet evs" and hist: "history g' = history g @ hu_event t pc g @ evs"
    using hu_step_history [OF st] by blast
  note sl = hu_step_slot [OF st] and nh = hu_step_next_holder [OF st]
  note qs = quiet_slot_after [OF q] quiet_observes [OF q] quiet_stores [OF q]
  have up: "\<forall>h. hu_unpublished pc' = Some h \<longrightarrow>
      (hu_unpublished pc = Some h \<and> (\<exists>new. pc = HU_AtomicLoad new))
      \<or> (h = next_holder g \<and> (\<exists>f. pc = HU_Load f))"
    using hu_step_unpublished [OF st] by blast
  show ?thesis
  proof (cases pc)
    case (HU_Load f)
    with obs slot dist bound up show ?thesis
      by (auto simp: hist sl nh observes_append slot_after_append stores_append qs
          dest: less_SucI)
  next
    case (HU_AtomicLoad new)
    with obs slot dist bound unp up show ?thesis
      by (auto simp: hist sl nh observes_append slot_after_append stores_append qs)
  next
    case (HU_AtomicStore new old)
    with obs slot dist bound unp up show ?thesis
      by (auto simp: hist sl nh observes_append slot_after_append stores_append qs)
  next
    case (HU_Count new old)
    with obs slot dist bound up show ?thesis
      by (auto simp: hist sl nh observes_append slot_after_append stores_append qs)
  next
    case (HU_Print new old)
    with obs slot dist bound up show ?thesis
      by (auto simp: hist sl nh observes_append slot_after_append stores_append qs)
  next
    case (HU_Sleep new old)
    with obs slot dist bound up show ?thesis
      by (auto simp: hist sl nh observes_append slot_after_append stores_append qs)
  next
    case (HU_Return b)
    with obs slot dist bound up show ?thesis
      by (auto simp: hist sl nh observes_append slot_after_append stores_append qs)
  next
    case HU_Segfault
    with obs slot dist bound up show ?thesis
      by (auto simp: hist sl nh observes_append slot_after_append stores_append qs)
  qed
qed

lemma pub_worker_step:
  assumes st: "worker_step k pc g = (pc', g')"
    and obs: "observes None (history g)"
    and slot: "g_operator g = slot_after None (history g)"
  shows "observes None (history g')
     \<and> g_operator g' = slot_after None (history g')
     \<and> stores (history g') = stores (history g)
     \<and> next_holder g' = next_holder g"
proof -
  obtain evs where q: "quiet evs" and hist: "history g' = history g @ worker_event k pc g @ evs"
    using worker_step_history [OF st] by blast
  note sl = worker_step_slot [OF st]
  note qs = quiet_slot_after [OF q] quiet_observes [OF q] quiet_stores [OF q]
  from obs slot show ?thesis
    by (cases pc)
       (auto simp: hist sl observes_append slot_after_append stores_append qs)
qed

lemma pub_release:
  "stores (history (sp_release p (g\<lparr>g_operator := x\<rparr>))) = stores (history g)
   \<and> (observes None (history g) \<longrightarrow>
        observes None (history (sp_release p (g\<lparr>g_operator := x\<rparr>))))"
proof -
  obtain evs where q: "quiet evs"
    and hist: "history (sp_release p (g\<lparr>g_operator := x\<rparr>))
       = history (g\<lparr>g_operator := x\<rparr>) @ evs"
    using history_sp_release by blast
  have h0: "history (g\<lparr>g_operator := x\<rparr>) = history g"
    by (simp add: history_def)
  show ?thesis
    by (simp add: hist h0 observes_append stores_append quiet_observes [OF q]
        quiet_stores [OF q])
qed

lemma published_ok_step:
  assumes p: "published_ok s"
  shows "published_ok (step dl t s)"
proof (induction rule: step_cases)
  case idle
  show ?case by (rule p)
next
  case (main_crash pc g')
  with p show ?case by (simp add: published_ok_def)
next
  case (main_hu pc pc' g')
  have sl: "g_operator (sh s) = slot_after None (history (sh s))"
    using p main_hu(1) by (simp add: published_ok_def)
  have unp: "\<forall>h. hu_unpublished pc = Some h \<longrightarrow>
      h < next_holder (sh s) \<and> h \<notin> set (stores (history (sh s)))"
    using p main_hu(2) by (simp add: published_ok_def)
  have idle: "ctl_idle (ctl s)"
    using p main_hu(2) by (simp add: published_ok_def)
  from pub_hu_step [OF main_hu(3) _ sl _ _ unp] p idle show ?case
    by (cases "ctl s") (auto simp: published_ok_def)
next
  case main_exit
  from p main_exit pub_release [where g = "sh s" and p = "g_operator (sh s)" and x = None] show ?case
    by (simp add: published_ok_def all_done_def)
next
  case (ctl_next f fs)
  with p show ?case by (auto simp: published_ok_def)
next
  case ctl_done
  with p show ?case by (auto simp: published_ok_def)
next
  case (ctl_crash pc fs g')
  with p show ?case by (simp add: published_ok_def)
next
  case (ctl_hu pc fs pc' g')
  have sl: "g_operator (sh s) = slot_after None (history (sh s))"
    using p ctl_hu(1) by (simp add: published_ok_def)
  have unp: "\<forall>h. hu_unpublished pc = Some h \<longrightarrow>
      h < next_holder (sh s) \<and> h \<notin> set (stores (history (sh s)))"
    using p ctl_hu(3) by (simp add: published_ok_def)
  from pub_hu_step [OF ctl_hu(4) _ sl _ _ unp] p ctl_hu(2) show ?case
    by (auto simp: published_ok_def)
next
  case (worker_crash k g')
  with p show ?case by (simp add: published_ok_def)
next
  case (worker k pc' g')
  have sl: "g_operator (sh s) = slot_after None (history (sh s))"
    using p worker(1) by (simp add: published_ok_def)
  from pub_worker_step [OF worker(4) _ sl] p worker(1) show ?case
    by (auto simp: published_ok_def)
qed

lemma published_ok_run: "published_ok s \<Longrightarrow> published_ok (run dl sched s)"
  by (induction sched arbitrary: s) (simp_all add: published_ok_step)

lemma published_ok_start: "published_ok (start first n script)"
  by (simp add: published_ok_def start_def empty_shared_def history_def)


text \<open>
  Every \<^verbatim>\<open>atomic_load\<close> that a run has logged after a publish of \<open>b\<close> logged \<open>b\<close> or a
  bundle published in between.
\<close>

lemma logged_loads_follow_stores:
  assumes "history (sh (run dl sched (start first n script)))
             = xs @ EvStore b # ys @ EvLoad t p # zs"
  shows "\<exists>b'. p = Some b' \<and> (b' = b \<or> b' \<in> set (stores ys)) \<and> b' \<notin> set (stores xs)"
proof -
  let ?s = "run dl sched (start first n script)"
  have ok: "published_ok ?s"
    by (rule published_ok_run [OF published_ok_start])
  then have obs: "observes None (history (sh ?s))"
    and dist: "distinct (stores (history (sh ?s)))"
    by (simp_all add: published_ok_def)
  from obs have "observes (Some b) (ys @ EvLoad t p # zs)"
    unfolding assms by (simp add: observes_append)
  then have p: "p = slot_after (Some b) ys"
    by (simp add: observes_append)
  obtain b' where b': "slot_after (Some b) ys = Some b'"
    using slot_after_Some_ex by blast
  from slot_after_Some [OF b'] have later: "b' = b \<or> b' \<in> set (stores ys)" .
  from dist have "distinct (stores xs @ b # stores ys @ stores zs)"
    unfolding assms by (simp add: stores_append)
  with later have "b' \<notin> set (stores xs)"
    by auto
  with p b' later show ?thesis
    by simp
qed

lemma worker_snapshot_step:
  assumes "status s = Running" and "main s = M_Join" and "k < length (workers s)"
    and "workers s ! k = W_Round i" and "i < total_rounds"
  shows "workers (step dl (Worker k) s) ! k = W_Check i (fst (atomic_load (Worker k) (sh s)))"
  using assms
  by (simp add: step_def worker_sys_step_def split: prod.splits)

text \<open>
  Claim C2. Take any state that a run has reached after a publish, that is after the
  \<^verbatim>\<open>atomic_store\<close> of some bundle \<open>b\<close> has completed, while the process is running.
  An \<^verbatim>\<open>atomic_load\<close> that begins there returns, to whichever thread calls it, a bundle
  and not the null pointer, and that bundle is \<open>b\<close> or one published after \<open>b\<close>, and
  none of the bundles published before \<open>b\<close>. A worker at the head of a round that takes
  its step there holds exactly this bundle as its \<^verbatim>\<open>op_ptr\<close> afterwards.
\<close>

theorem monotonic_visibility:
  assumes s: "s = run dl sched (start first n script)"
    and hist: "history (sh s) = xs @ EvStore b # ys"
    and running: "status s = Running"
  shows "\<exists>b'. (\<forall>t. fst (atomic_load t (sh s)) = Some b')
            \<and> (\<forall>k i. main s = M_Join \<and> k < length (workers s)
                   \<and> workers s ! k = W_Round i \<and> i < total_rounds
                 \<longrightarrow> workers (step dl (Worker k) s) ! k = W_Check i (Some b'))
            \<and> (b' = b \<or> b' \<in> set (stores ys)) \<and> b' \<notin> set (stores xs)"
proof -
  have ok: "published_ok s"
    unfolding s by (rule published_ok_run [OF published_ok_start])
  with running have slot: "g_operator (sh s) = slot_after None (history (sh s))"
    and dist: "distinct (stores (history (sh s)))"
    by (simp_all add: published_ok_def)
  have slot': "g_operator (sh s) = slot_after (Some b) ys"
    unfolding slot hist by (simp add: slot_after_append)
  obtain b' where b': "slot_after (Some b) ys = Some b'"
    using slot_after_Some_ex by blast
  from slot_after_Some [OF b'] have later: "b' = b \<or> b' \<in> set (stores ys)" .
  from dist have "distinct (stores xs @ b # stores ys)"
    unfolding hist by (simp add: stores_append)
  with later have earlier: "b' \<notin> set (stores xs)"
    by auto
  have ret: "\<forall>t. fst (atomic_load t (sh s)) = Some b'"
    by (simp add: slot' b')
  have held: "\<forall>k i. main s = M_Join \<and> k < length (workers s)
                   \<and> workers s ! k = W_Round i \<and> i < total_rounds
                 \<longrightarrow> workers (step dl (Worker k) s) ! k = W_Check i (Some b')"
    using worker_snapshot_step [OF running, where dl = dl] ret by simp
  from ret held later earlier show ?thesis
    by blast
qed

theorem monotonic_visibility_witness:
  "history (sh (run demo_dl (replicate 6 Main @ replicate 4 Controller)
       (start ''./score_op_v1.so'' 1 [''./score_op_v2.so''])))
     = [EvDlopen ''./score_op_v1.so'', EvCreate \<lparr>inst_addr = 0, inst_class = ScoreOperatorV1\<rparr>,
        EvLoad Main None]
       @ EvStore 0
       # [EvDlopen ''./score_op_v2.so'', EvCreate \<lparr>inst_addr = 1, inst_class = ScoreOperatorV2\<rparr>,
          EvLoad Controller (Some 0), EvStore 1]
   \<and> status (run demo_dl (replicate 6 Main @ replicate 4 Controller)
       (start ''./score_op_v1.so'' 1 [''./score_op_v2.so''])) = Running
   \<and> main (run demo_dl (replicate 6 Main @ replicate 4 Controller)
       (start ''./score_op_v1.so'' 1 [''./score_op_v2.so''])) = M_Join
   \<and> workers (run demo_dl (replicate 6 Main @ replicate 4 Controller)
       (start ''./score_op_v1.so'' 1 [''./score_op_v2.so''])) ! 0 = W_Round 0
   \<and> fst (atomic_load (Worker 0) (sh (run demo_dl (replicate 6 Main @ replicate 4 Controller)
       (start ''./score_op_v1.so'' 1 [''./score_op_v2.so''])))) = Some 1
   \<and> workers (step demo_dl (Worker 0) (run demo_dl (replicate 6 Main @ replicate 4 Controller)
       (start ''./score_op_v1.so'' 1 [''./score_op_v2.so'']))) ! 0 = W_Check 0 (Some 1)
   \<and> 1 \<in> set (stores
        [EvDlopen ''./score_op_v2.so'', EvCreate \<lparr>inst_addr = 1, inst_class = ScoreOperatorV2\<rparr>,
         EvLoad Controller (Some 0), EvStore 1])
   \<and> 1 \<notin> set (stores
        [EvDlopen ''./score_op_v1.so'', EvCreate \<lparr>inst_addr = 0, inst_class = ScoreOperatorV1\<rparr>,
         EvLoad Main None])"
proof -
  let ?s = "run demo_dl (replicate 6 Main @ replicate 4 Controller)
    (start ''./score_op_v1.so'' 1 [''./score_op_v2.so''])"
  let ?xs = "[EvDlopen ''./score_op_v1.so'',
    EvCreate \<lparr>inst_addr = 0, inst_class = ScoreOperatorV1\<rparr>, EvLoad Main None]"
  let ?ys = "[EvDlopen ''./score_op_v2.so'',
    EvCreate \<lparr>inst_addr = 1, inst_class = ScoreOperatorV2\<rparr>, EvLoad Controller (Some 0),
    EvStore 1]"
  have h: "history (sh ?s) = ?xs @ EvStore 0 # ?ys"
    by (simp add: model_defs eval_nat_numeral run_append history_def)
  have r: "status ?s = Running"
    by (simp add: model_defs eval_nat_numeral run_append)
  have w: "main ?s = M_Join" "0 < length (workers ?s)" "workers ?s ! 0 = W_Round 0"
    "(0::nat) < total_rounds"
    by (simp_all add: model_defs eval_nat_numeral run_append)
  have slot: "g_operator (sh ?s) = Some 1"
    by (simp add: model_defs eval_nat_numeral run_append)
  obtain b' where ret: "\<forall>t. fst (atomic_load t (sh ?s)) = Some b'"
    and held: "\<forall>k i. main ?s = M_Join \<and> k < length (workers ?s)
                   \<and> workers ?s ! k = W_Round i \<and> i < total_rounds
                 \<longrightarrow> workers (step demo_dl (Worker k) ?s) ! k = W_Check i (Some b')"
    and later: "b' = 0 \<or> b' \<in> set (stores ?ys)" and earlier: "b' \<notin> set (stores ?xs)"
    using monotonic_visibility [OF refl h r] by blast
  from ret slot have b': "b' = 1"
    by (simp add: atomic_load_def)
  from held w have "workers (step demo_dl (Worker 0) ?s) ! 0 = W_Check 0 (Some b')"
    by blast
  with h r w ret later earlier b' show ?thesis
    by simp
qed

section \<open>The scripted run\<close>

lemma loadableE:
  assumes "loadable dl f"
  obtains m cls d where "dl f = Some m" "create_operator m = Some (CreateFunc (Some cls))"
    "destroy_operator m = Some d"
  using assms
  by (auto simp: loadable_def split: option.splits CreateFunc.splits)

lemma load_operator_loadable:
  assumes "loadable dl f"
  shows "fst (load_operator dl f g) = Some (next_holder g)"
    and "op (holders (snd (load_operator dl f g)) (next_holder g)) \<noteq> None"
proof -
  from assms obtain m cls d where m: "dl f = Some m"
    "create_operator m = Some (CreateFunc (Some cls))" "destroy_operator m = Some d"
    by (rule loadableE)
  show "fst (load_operator dl f g) = Some (next_holder g)"
    and "op (holders (snd (load_operator dl f g)) (next_holder g)) \<noteq> None"
    by (simp_all add: load_operator_succeeds [where dl = dl and so_file = f, OF m]
        call_create_def Let_def)
qed

lemma usable_load_operator:
  "usable g h \<Longrightarrow> usable (snd (load_operator dl f g)) h"
  by (simp add: usable_def load_operator_old_holders)

lemma usable_upd [simp]:
  "usable (g\<lparr>g_stats := st\<rparr>) h = usable g h"
  "usable (emit evs g) h = usable g h"
  "usable (sp_release p g) h = usable g h"
  "usable (sp_copy p g) h = usable g h"
  "usable (snd (atomic_load t g)) h = usable g h"
  "usable (atomic_store new g) h = usable g h"
  by (simp_all add: usable_def)

lemma stats_frame [simp]:
  "g_stats (snd (atomic_load t g)) = g_stats g"
  "g_stats (atomic_store new g) = g_stats g"
  by simp_all

lemma hu_step_healthy:
  assumes st: "hu_step dl t pc g = (pc', g')"
    and paths: "\<forall>f\<in>set (hu_path pc). loadable dl f"
    and new: "\<forall>h. hu_new pc = Some h \<longrightarrow> usable g h"
    and live: "hu_running pc"
  shows "(hu_running pc' \<or> pc' = HU_Return True) \<and> hu_path pc' = []
     \<and> (\<forall>h. hu_new pc' = Some h \<longrightarrow> usable g' h)
     \<and> (\<forall>h. usable g h \<longrightarrow> usable g' h)
     \<and> hot_update_count (g_stats g') + of_nat (hu_uncounted pc')
         = hot_update_count (g_stats g) + of_nat (hu_uncounted pc)
     \<and> total_requests (g_stats g') = total_requests (g_stats g)
     \<and> (g_operator g' = None \<longrightarrow> g_operator g = None)
     \<and> (g_operator g' = None \<and> hu_before_store pc \<longrightarrow> hu_before_store pc')
     \<and> (\<forall>h. g_operator g' = Some h \<longrightarrow> g_operator g = Some h \<or> hu_new pc = Some h)"
proof (cases pc)
  case (HU_Load f)
  with paths have l: "loadable dl f" by simp
  from st HU_Load load_operator_loadable [OF l, of g] show ?thesis
    by (auto simp: usable_def load_operator_old_holders split: prod.splits option.splits
        dest!: load_operator_eqD)
next
  case (HU_AtomicLoad new)
  with st new show ?thesis by (auto split: prod.splits)
next
  case (HU_AtomicStore new old)
  with st new show ?thesis by auto
next
  case (HU_Count new old)
  with st new show ?thesis by (auto simp: count_hot_update_def)
next
  case (HU_Print new old)
  with st new show ?thesis by (auto simp: usable_def split: option.splits)
next
  case (HU_Sleep new old)
  with st new show ?thesis by auto
next
  case (HU_Return b)
  with st live show ?thesis by auto
next
  case HU_Segfault
  with live show ?thesis by simp
qed

lemma worker_step_healthy:
  assumes st: "worker_step k pc g = (pc', g')"
    and ok: "worker_ok g pc"
    and slot: "\<exists>h. g_operator g = Some h \<and> usable g h"
  shows "pc' \<noteq> W_Segfault \<and> worker_ok g' pc'
     \<and> (\<forall>h. usable g' h = usable g h)
     \<and> hot_update_count (g_stats g') = hot_update_count (g_stats g)
     \<and> total_requests (g_stats g') + of_nat (worker_recorded pc)
         = total_requests (g_stats g) + of_nat (worker_recorded pc')
     \<and> g_operator g' = g_operator g"
proof (cases pc)
  case (W_Round i)
  with st ok slot show ?thesis
    by (auto simp: total_rounds_def split: if_splits prod.splits)
next
  case (W_Check i p)
  with st ok show ?thesis
    by (auto simp: usable_def split: option.splits)
next
  case (W_Record i h)
  with st ok show ?thesis
    by (auto simp: usable_def count_total_def split: option.splits)
next
  case (W_Variant i h op_name)
  with st ok show ?thesis
    by (auto simp: count_variant_def)
next
  case (W_Sleep i h)
  with st ok show ?thesis by auto
next
  case W_Done
  with st show ?thesis by auto
next
  case W_Segfault
  with ok show ?thesis by simp
qed


lemma healthy_step:
  assumes p: "healthy dl calls s"
  shows "healthy dl calls (step dl t s)"
proof (induction rule: step_cases)
  case idle
  show ?case by (rule p)
next
  case (main_crash pc g')
  have "\<forall>f\<in>set (hu_path pc). loadable dl f" "\<forall>h. hu_new pc = Some h \<longrightarrow> usable (sh s) h"
    "hu_running pc"
    using p main_crash(2) by (simp_all add: healthy_def)
  from hu_step_healthy [OF main_crash(3) this] show ?case by simp
next
  case (main_hu pc pc' g')
  have pre: "\<forall>f\<in>set (hu_path pc). loadable dl f"
    "\<forall>h. hu_new pc = Some h \<longrightarrow> usable (sh s) h" "hu_running pc"
    using p main_hu(2) by (simp_all add: healthy_def)
  note h = hu_step_healthy [OF main_hu(3) pre]
  have bs: "g_operator (sh s) = None \<longrightarrow> hu_before_store pc"
    using p main_hu(2) by (simp add: healthy_def)
  have cnt: "hot_update_count (g_stats g') + of_nat (hu_uncounted pc' + ctl_uncounted (ctl s))
      = of_nat calls"
  proof -
    have "hot_update_count (g_stats g') + of_nat (hu_uncounted pc' + ctl_uncounted (ctl s))
        = hot_update_count (g_stats (sh s)) + of_nat (hu_uncounted pc) + of_nat (ctl_uncounted (ctl s))"
      using h by simp
    also have "\<dots> = of_nat calls"
      using p main_hu(2) by (simp add: healthy_def add.assoc)
    finally show ?thesis .
  qed
  have ws: "\<forall>pc\<in>set (workers s). worker_ok g' pc"
  proof
    fix w assume "w \<in> set (workers s)"
    then have "worker_ok (sh s) w" using p by (simp add: healthy_def)
    with h show "worker_ok g' w"
      by (cases w) (auto split: option.splits)
  qed
  show ?case
  proof (cases "pc' = HU_Return True")
    case True
    with h bs p cnt ws main_hu(2) show ?thesis
      by (auto simp: healthy_def)
  next
    case False
    with h bs p cnt ws main_hu(2) show ?thesis
      by (auto simp: healthy_def)
  qed
next
  case main_exit
  with p show ?case
    by (auto simp: healthy_def all_done_def list_all_iff)
next
  case (ctl_next f fs)
  with p show ?case by (auto simp: healthy_def)
next
  case ctl_done
  with p show ?case by (auto simp: healthy_def)
next
  case (ctl_crash pc fs g')
  have "\<forall>f\<in>set (hu_path pc). loadable dl f" "\<forall>h. hu_new pc = Some h \<longrightarrow> usable (sh s) h"
    "hu_running pc"
    using p ctl_crash(3) by (simp_all add: healthy_def)
  from hu_step_healthy [OF ctl_crash(4) this] show ?case by simp
next
  case (ctl_hu pc fs pc' g')
  have pre: "\<forall>f\<in>set (hu_path pc). loadable dl f"
    "\<forall>h. hu_new pc = Some h \<longrightarrow> usable (sh s) h" "hu_running pc"
    using p ctl_hu(3) by (simp_all add: healthy_def)
  note h = hu_step_healthy [OF ctl_hu(4) pre]
  have slot: "g_operator (sh s) \<noteq> None"
    using p ctl_hu(2) by (auto simp: healthy_def)
  have cnt: "hot_update_count (g_stats g') + of_nat (hu_uncounted pc' + length fs)
      = of_nat calls"
  proof -
    have "hot_update_count (g_stats g') + of_nat (hu_uncounted pc' + length fs)
        = hot_update_count (g_stats (sh s)) + of_nat (hu_uncounted pc) + of_nat (length fs)"
      using h by simp
    also have "\<dots> = of_nat calls"
      using p ctl_hu(2,3) by (simp add: healthy_def add.assoc)
    finally show ?thesis .
  qed
  have ws: "\<forall>pc\<in>set (workers s). worker_ok g' pc"
  proof
    fix w assume "w \<in> set (workers s)"
    then have "worker_ok (sh s) w" using p by (simp add: healthy_def)
    with h show "worker_ok g' w"
      by (cases w) (auto split: option.splits)
  qed
  show ?case
  proof (cases "pc' = HU_Return True")
    case True
    with h slot p cnt ws ctl_hu(2,3) show ?thesis
      by (auto simp: healthy_def)
  next
    case False
    with h slot p cnt ws ctl_hu(2,3) show ?thesis
      by (auto simp: healthy_def)
  qed
next
  case (worker_crash k g')
  have ok: "worker_ok (sh s) (workers s ! k)"
    using p worker_crash(3) by (simp add: healthy_def)
  have slot: "\<exists>h. g_operator (sh s) = Some h \<and> usable (sh s) h"
    using p worker_crash(2) by (cases "g_operator (sh s)") (auto simp: healthy_def)
  from worker_step_healthy [OF worker_crash(4) ok slot] show ?case by simp
next
  case (worker k pc' g')
  have ok: "worker_ok (sh s) (workers s ! k)"
    using p worker(3) by (simp add: healthy_def)
  have slot: "\<exists>h. g_operator (sh s) = Some h \<and> usable (sh s) h"
    using p worker(2) by (cases "g_operator (sh s)") (auto simp: healthy_def)
  note h = worker_step_healthy [OF worker(4) ok slot]
  have sum: "sum_list (map worker_recorded ((workers s)[k := pc'])) + worker_recorded (workers s ! k)
      = sum_list (map worker_recorded (workers s)) + worker_recorded pc'"
    using worker(3) by (rule sum_list_map_update)
  have tot: "total_requests (g_stats g')
      = of_nat (sum_list (map worker_recorded ((workers s)[k := pc'])))"
  proof -
    have "total_requests (g_stats g') + of_nat (worker_recorded (workers s ! k))
        = of_nat (sum_list (map worker_recorded (workers s)) + worker_recorded pc')"
      using h p by (simp add: healthy_def)
    also have "\<dots> = of_nat (sum_list (map worker_recorded ((workers s)[k := pc']))
        + worker_recorded (workers s ! k))"
      using sum by simp
    finally show ?thesis by simp
  qed
  have ws: "\<forall>pc\<in>set ((workers s)[k := pc']). worker_ok g' pc"
  proof
    fix w assume "w \<in> set ((workers s)[k := pc'])"
    then have "w = pc' \<or> w \<in> set (workers s)"
      by (auto dest: set_update_subset_insert [THEN subsetD])
    then show "worker_ok g' w"
    proof
      assume "w = pc'" with h show ?thesis by simp
    next
      assume "w \<in> set (workers s)"
      then have "worker_ok (sh s) w" using p by (simp add: healthy_def)
      with h show ?thesis
        by (cases w) (auto split: option.splits)
    qed
  qed
  from h p tot ws worker(1,2) show ?case
    by (auto simp: healthy_def)
qed

lemma healthy_run: "healthy dl calls s \<Longrightarrow> healthy dl calls (run dl sched s)"
  by (induction sched arbitrary: s) (simp_all add: healthy_step)

lemma healthy_start:
  "loadable dl first \<Longrightarrow> \<forall>f\<in>set script. loadable dl f \<Longrightarrow>
   healthy dl (Suc (length script)) (start first n script)"
  by (simp add: healthy_def start_def empty_shared_def new_stats_def o_def sum_list_replicate)


text \<open>
  Progress: in a healthy state that has not ended some thread can take a step that lowers
  the rank, so every run can be continued until \<^verbatim>\<open>main\<close> has returned.
\<close>

lemma hu_step_rank:
  "hu_step dl t pc g = (pc', g') \<Longrightarrow> hu_running pc \<Longrightarrow> hu_rank pc' < hu_rank pc"
  by (cases pc) (auto split: prod.splits option.splits)

lemma worker_step_rank:
  "worker_step k pc g = (pc', g') \<Longrightarrow> worker_ok g pc \<Longrightarrow> pc \<noteq> W_Done \<Longrightarrow>
   worker_rank pc' < worker_rank pc"
  by (cases pc) (auto simp: total_rounds_def split: prod.splits option.splits if_splits)

lemma healthy_status: "healthy dl calls s \<Longrightarrow> status s = Running \<or> status s = Exited"
  by (cases "status s") (simp_all add: healthy_def)

lemma not_done_worker:
  "\<not> list_all (\<lambda>pc. pc = W_Done) ws \<Longrightarrow> \<exists>k < length ws. ws ! k \<noteq> W_Done"
  by (auto simp: list_all_length)

lemma progress:
  assumes h: "healthy dl calls s" and run: "status s = Running"
  shows "\<exists>t. rank (step dl t s) < rank s"
proof (cases "main s")
  case (M_Init pc)
  have r: "hu_running pc" using h M_Init by (simp add: healthy_def)
  have "rank (step dl Main s) < rank s"
  proof (induction rule: step_cases)
    case idle
    with run M_Init show ?case by simp
  next
    case (main_hu pc0 pc' g')
    with M_Init r hu_step_rank [of dl Main pc "sh s" pc' g'] show ?case
      by (auto simp: rank_def)
  next
    case (main_crash pc0 g')
    have "\<forall>f\<in>set (hu_path pc0). loadable dl f"
      "\<forall>h. hu_new pc0 = Some h \<longrightarrow> usable (sh s) h" "hu_running pc0"
      using h main_crash(2) by (simp_all add: healthy_def)
    from hu_step_healthy [OF main_crash(3) this] show ?case by simp
  qed (use M_Init in simp_all)
  then show ?thesis ..
next
  case M_Join
  show ?thesis
  proof (cases "ctl s = C_Done")
    case False
    have "rank (step dl Controller s) < rank s"
    proof (induction rule: step_cases)
      case idle
      with run M_Join False show ?case by simp
    next
      case (ctl_hu pc fs pc' g')
      have r: "hu_running pc" using h ctl_hu(3) by (simp add: healthy_def)
      from hu_step_rank [OF ctl_hu(4) r] ctl_hu(3) show ?case
        by (auto simp: rank_def)
    next
      case (ctl_crash pc fs g')
      have "\<forall>f\<in>set (hu_path pc). loadable dl f"
        "\<forall>h. hu_new pc = Some h \<longrightarrow> usable (sh s) h" "hu_running pc"
        using h ctl_crash(3) by (simp_all add: healthy_def)
      from hu_step_healthy [OF ctl_crash(4) this] show ?case by simp
    qed (simp_all add: rank_def)
    then show ?thesis ..
  next
    case cd: True
    show ?thesis
    proof (cases "all_done s")
      case True
      have "rank (step dl Main s) < rank s"
      proof (induction rule: step_cases)
        case idle
        with run M_Join True show ?case by simp
      qed (use M_Join in \<open>simp_all add: rank_def\<close>)
      then show ?thesis ..
    next
      case False
      with cd obtain k where k: "k < length (workers s)" "workers s ! k \<noteq> W_Done"
        using not_done_worker [of "workers s"] by (auto simp: all_done_def)
      have ok: "worker_ok (sh s) (workers s ! k)"
        using h k(1) by (simp add: healthy_def)
      have "rank (step dl (Worker k) s) < rank s"
      proof (induction rule: step_cases)
        case idle
        with run M_Join k show ?case by simp
      next
        case (worker k' pc' g')
        then have st: "worker_step k (workers s ! k) (sh s) = (pc', g')" by simp
        have "sum_list (map worker_rank ((workers s)[k := pc'])) + worker_rank (workers s ! k)
            = sum_list (map worker_rank (workers s)) + worker_rank pc'"
          using k(1) by (rule sum_list_map_update)
        with worker_step_rank [OF st ok k(2)] worker(6) show ?case
          by (simp add: rank_def)
      next
        case (worker_crash k' g')
        then have st: "worker_step k (workers s ! k) (sh s) = (W_Segfault, g')" by simp
        have slot: "\<exists>h. g_operator (sh s) = Some h \<and> usable (sh s) h"
          using h M_Join by (cases "g_operator (sh s)") (auto simp: healthy_def)
        from worker_step_healthy [OF st ok slot] show ?case by simp
      qed simp_all
      then show ?thesis ..
    qed
  qed
next
  case M_Exit
  with h run show ?thesis by (simp add: healthy_def)
qed

lemma can_finish:
  "healthy dl calls s \<Longrightarrow> \<exists>rest. status (run dl rest s) = Exited"
proof (induction "rank s" arbitrary: s rule: less_induct)
  case less
  show ?case
  proof (cases "status s = Exited")
    case True
    then have "status (run dl [] s) = Exited" by simp
    then show ?thesis ..
  next
    case False
    with healthy_status [OF less.prems] have run: "status s = Running" by simp
    obtain t where t: "rank (step dl t s) < rank s"
      using progress [OF less.prems run] ..
    obtain rest where "status (run dl rest (step dl t s)) = Exited"
      using less.hyps [OF t healthy_step [OF less.prems]] ..
    then have "status (run dl (t # rest) s) = Exited" by simp
    then show ?thesis ..
  qed
qed

lemma all_done_recorded:
  "all_done s \<Longrightarrow> sum_list (map worker_recorded (workers s)) = length (workers s) * total_rounds"
proof -
  assume "all_done s"
  then have "map worker_recorded (workers s) = replicate (length (workers s)) total_rounds"
    by (auto simp: all_done_def list_all_iff map_replicate_const [symmetric]
        intro!: map_cong)
  then show ?thesis
    by (simp add: sum_list_replicate)
qed

lemma length_workers_step [simp]: "length (workers (step dl t s)) = length (workers s)"
  by (induction rule: step_cases) simp_all

lemma length_workers_run [simp]: "length (workers (run dl sched s)) = length (workers s)"
  by (induction sched arbitrary: s) simp_all

lemma scripted_run_totals:
  assumes "loadable dl first" and "\<forall>f\<in>set script. loadable dl f"
    and "status (run dl sched (start first n script)) = Exited"
  shows "hot_update_count (g_stats (sh (run dl sched (start first n script))))
           = of_nat (Suc (length script))
     \<and> total_requests (g_stats (sh (run dl sched (start first n script))))
           = of_nat (n * total_rounds)"
proof -
  let ?s = "run dl sched (start first n script)"
  have h: "healthy dl (Suc (length script)) ?s"
    by (rule healthy_run [OF healthy_start [OF assms(1,2)]])
  have ex: "g_operator (sh ?s) = None \<and> all_done ?s \<and> main ?s = M_Exit"
    using exited_run [of "start first n script" dl sched] assms(3)
    by (simp add: start_def)
  from h ex all_done_recorded [of ?s] show ?thesis
    by (simp add: healthy_def all_done_def start_def)
qed

text \<open>
  Claim C7. The claim asks that the scripted run of \<^verbatim>\<open>main\<close> (four workers, twenty rounds
  each, the controller publishing v2, v1, v2) ends with \<open>total_requests\<close> 80 and
  \<open>hot_update_count\<close> 3. The source calls the first load in \<^verbatim>\<open>main\<close> the initialisation
  and numbers the controller's publishes as the first, second and third hot update, but
  it performs that first load through \<^verbatim>\<open>hot_update\<close>, whose increment of the counter is
  unconditional. So, with both plugins loadable and whatever the interleaving: the process
  neither crashes nor aborts, the run can always be continued until \<^verbatim>\<open>main\<close> has
  returned, and when it has, \<open>total_requests\<close> is 80 as claimed, while
  \<open>hot_update_count\<close> is 4, one more than the three hot updates that took place.
\<close>

theorem demo_totals:
  assumes "loadable dl ''./score_op_v1.so''" and "loadable dl ''./score_op_v2.so''"
  shows "status (run dl sched main_start) \<noteq> Crashed
     \<and> status (run dl sched main_start) \<noteq> Aborted
     \<and> (\<exists>rest. status (run dl (sched @ rest) main_start) = Exited)
     \<and> (status (run dl sched main_start) = Exited \<longrightarrow>
          hot_update_count (g_stats (sh (run dl sched main_start))) = 4
          \<and> total_requests (g_stats (sh (run dl sched main_start))) = 80)"
proof -
  let ?script = "[''./score_op_v2.so'', ''./score_op_v1.so'', ''./score_op_v2.so'']"
  have ms: "main_start = start ''./score_op_v1.so'' 4 ?script"
    by (simp add: main_start_def THREAD_NUM_def)
  have hs: "healthy dl (Suc (length ?script)) (start ''./score_op_v1.so'' 4 ?script)"
    using assms by (intro healthy_start) simp_all
  have h: "healthy dl (Suc (length ?script)) (run dl sched main_start)"
    unfolding ms by (rule healthy_run [OF hs])
  from can_finish [OF h] have fin: "\<exists>rest. status (run dl (sched @ rest) main_start) = Exited"
    by (simp add: run_append)
  have tot: "status (run dl sched main_start) = Exited \<longrightarrow>
          hot_update_count (g_stats (sh (run dl sched main_start))) = 4
          \<and> total_requests (g_stats (sh (run dl sched main_start))) = 80"
    using scripted_run_totals [of dl "''./score_op_v1.so''" ?script sched 4] assms
    by (simp add: ms total_rounds_def)
  from h fin tot show ?thesis
    by (simp add: healthy_def)
qed

lemma demo_loadable:
  "loadable demo_dl ''./score_op_v1.so''" "loadable demo_dl ''./score_op_v2.so''"
  by (simp_all add: loadable_def demo_dl_def v1_module_def v2_module_def)

lemma demo_run_exits: "status (run demo_dl demo_sched main_start) = Exited"
  unfolding demo_sched_def main_start_def THREAD_NUM_def
  by (simp add: model_defs eval_nat_numeral run_append)

theorem demo_totals_witness:
  "loadable demo_dl ''./score_op_v1.so'' \<and> loadable demo_dl ''./score_op_v2.so''
   \<and> status (run demo_dl demo_sched main_start) = Exited
   \<and> hot_update_count (g_stats (sh (run demo_dl demo_sched main_start))) = 4
   \<and> total_requests (g_stats (sh (run demo_dl demo_sched main_start))) = 80"
  using demo_totals [OF demo_loadable, of demo_sched] demo_loadable demo_run_exits
  by simp

end
